theory Spec2Isabelle
  imports Main "HOL-Library.Word" "HOL-Library.Sublist"
begin

section \<open>C library routines used by the key codec\<close>

text \<open>
  The codec of \<^verbatim>\<open>pytricia.c\<close> calls \<^verbatim>\<open>strchr\<close>, \<^verbatim>\<open>atoi\<close>, \<^verbatim>\<open>inet_aton\<close> and
  \<^verbatim>\<open>inet_ntop\<close>. They are modelled as glibc implements them on an LP64 host
  (64-bit \<^verbatim>\<open>long\<close>, 32-bit \<^verbatim>\<open>int\<close>, 16-bit \<^verbatim>\<open>unsigned short\<close>, C locale).
  A C string is the list of its bytes up to the terminator.
\<close>

definition c_str :: "string \<Rightarrow> string" where
  "c_str s = takeWhile (\<lambda>c. c \<noteq> CHR 0x00) s"

definition isdigit :: "char \<Rightarrow> bool" where
  "isdigit c = (48 \<le> (of_char c :: nat) \<and> (of_char c :: nat) \<le> 57)"

definition isspace :: "char \<Rightarrow> bool" where
  "isspace c = ((of_char c :: nat) = 32 \<or> (9 \<le> (of_char c :: nat) \<and> (of_char c :: nat) \<le> 13))"

text \<open>The value of a character as a digit of base 16 or less.\<close>

definition digit_val :: "char \<Rightarrow> nat option" where
  "digit_val c =
     (let n = (of_char c :: nat) in
      if 48 \<le> n \<and> n \<le> 57 then Some (n - 48)
      else if 97 \<le> n \<and> n \<le> 102 then Some (n - 87)
      else if 65 \<le> n \<and> n \<le> 70 then Some (n - 55)
      else None)"

definition is_digit_of :: "nat \<Rightarrow> char \<Rightarrow> bool" where
  "is_digit_of base c = (case digit_val c of None \<Rightarrow> False | Some d \<Rightarrow> d < base)"

definition digits_value :: "nat \<Rightarrow> string \<Rightarrow> nat" where
  "digits_value base ds = foldl (\<lambda>acc c. acc * base + (case digit_val c of None \<Rightarrow> 0 | Some d \<Rightarrow> d)) 0 ds"

text \<open>
  \<^verbatim>\<open>atoi\<close> is \<^verbatim>\<open>(int) strtol(s, NULL, 10)\<close>: leading white space, an optional sign,
  the longest run of decimal digits; \<^verbatim>\<open>strtol\<close> saturates at the bounds of \<^verbatim>\<open>long\<close>
  and the cast to \<^verbatim>\<open>int\<close> keeps the low 32 bits, read as two's complement.
\<close>

definition atoi :: "string \<Rightarrow> int" where
  "atoi s =
     (let s1 = dropWhile isspace s;
          neg = (case s1 of c # _ \<Rightarrow> c = CHR ''-'' | [] \<Rightarrow> False);
          s2 = (case s1 of c # cs \<Rightarrow> if c = CHR ''-'' \<or> c = CHR ''+'' then cs else s1 | [] \<Rightarrow> s1);
          v = int (digits_value 10 (takeWhile isdigit s2));
          clamped = (if neg then max (- v) (- (2 ^ 63)) else min v (2 ^ 63 - 1))
      in (clamped + 2 ^ 31) mod 2 ^ 32 - 2 ^ 31)"

text \<open>
  \<^verbatim>\<open>strtoul(s, &end, 0)\<close> on a string that starts with a digit: the base is 16 after
  \<^verbatim>\<open>0x\<close> followed by a hexadecimal digit, 8 after a leading \<^verbatim>\<open>0\<close>, 10 otherwise.
  The result is the value and the unread rest. The value is not truncated here:
  \<^verbatim>\<open>inet_aton\<close> rejects every value above \<^verbatim>\<open>0xffffffff\<close>, saturated or not.
\<close>

definition strtoul0 :: "string \<Rightarrow> nat \<times> string" where
  "strtoul0 s =
     (let hex = (case s of c0 # c1 # c2 # _ \<Rightarrow>
                   c0 = CHR ''0'' \<and> (c1 = CHR ''x'' \<or> c1 = CHR ''X'') \<and> is_digit_of 16 c2
                 | _ \<Rightarrow> False);
          base = (if hex then 16 else if take 1 s = ''0'' then 8 else 10);
          body = (if hex then drop 2 s else s)
      in (digits_value base (takeWhile (is_digit_of base) body),
          dropWhile (is_digit_of base) body))"

lemma strtoul0_length: "length (snd (strtoul0 s)) \<le> length s"
  unfolding strtoul0_def Let_def snd_conv
  by (rule le_trans [OF length_dropWhile_le]) simp

text \<open>
  An IPv4 address (\<^verbatim>\<open>struct in_addr\<close>) is read as the 32-bit number whose most
  significant byte is the first byte in memory (network byte order): \<^verbatim>\<open>10.1.2.3\<close>
  is \<open>0x0A010203\<close>.

  \<^verbatim>\<open>inet_aton\<close>: one to four numbers separated by dots, each read by \<^verbatim>\<open>strtoul\<close>
  with base 0; every number before a dot is one byte, the last one fills the remaining
  bytes; after the last number only the end of the string or white space may follow.
\<close>

definition inet_aton_max :: "nat \<Rightarrow> nat" where
  "inet_aton_max k = (if k = 0 then 4294967295 else if k = 1 then 16777215 else if k = 2 then 65535 else 255)"

definition inet_aton_word :: "nat list \<Rightarrow> nat \<Rightarrow> 32 word" where
  "inet_aton_word parts val =
     of_nat (foldl (\<lambda>acc (k, b). acc + b * 2 ^ (24 - 8 * k)) 0 (zip [0..<length parts] parts) + val)"

function inet_aton_loop :: "string \<Rightarrow> nat list \<Rightarrow> 32 word option" where
  "inet_aton_loop [] parts = None"
| "inet_aton_loop (c # cs) parts =
     (if \<not> isdigit c then None
      else (let val = fst (strtoul0 (c # cs)); rest = snd (strtoul0 (c # cs)) in
            if take 1 rest = ''.''
            then (if length parts > 2 \<or> val > 255 then None
                  else inet_aton_loop (drop 1 rest) (parts @ [val]))
            else if rest \<noteq> [] \<and> \<not> isspace (hd rest) then None
            else if val > inet_aton_max (length parts) then None
            else Some (inet_aton_word parts val)))"
  by pat_completeness auto
termination
  apply (relation "measure (\<lambda>(s, parts). length s)")
   apply simp
  subgoal for c cs parts
    using strtoul0_length [of "c # cs"] by (cases "snd (strtoul0 (c # cs))") auto
  done

definition inet_aton :: "string \<Rightarrow> 32 word option" where
  "inet_aton s = inet_aton_loop s []"

text \<open>
  \<^verbatim>\<open>inet_ntop(AF_INET, ...)\<close> prints the four bytes in decimal, separated by dots.
  With a buffer of 32 bytes it cannot fail.
\<close>

definition digit_char :: "nat \<Rightarrow> char" where
  "digit_char d = ''0123456789'' ! (d mod 10)"

definition utoa_byte :: "nat \<Rightarrow> string" where
  "utoa_byte n =
     (if n < 10 then [digit_char n]
      else if n < 100 then [digit_char (n div 10), digit_char (n mod 10)]
      else [digit_char (n div 100), digit_char (n div 10 mod 10), digit_char (n mod 10)])"

definition addr_byte :: "32 word \<Rightarrow> nat \<Rightarrow> nat" where
  "addr_byte a k = unat (drop_bit (24 - 8 * k) a) mod 256"

definition inet_ntop :: "32 word \<Rightarrow> string" where
  "inet_ntop a =
     utoa_byte (addr_byte a 0) @ ''.'' @ utoa_byte (addr_byte a 1) @ ''.'' @
     utoa_byte (addr_byte a 2) @ ''.'' @ utoa_byte (addr_byte a 3)"

section \<open>Python objects and errors\<close>

text \<open>
  The objects that reach the module: \<open>None\<close>, booleans and integers (a \<^verbatim>\<open>bool\<close> is an
  \<^verbatim>\<open>int\<close> for \<^verbatim>\<open>PyLong_Check\<close>), strings (given by their UTF-8 bytes, as
  \<^verbatim>\<open>PyUnicode_AsUTF8\<close> returns them) and any other object, by an identifier.
  An exception set by a function that returns \<^verbatim>\<open>NULL\<close> or \<open>-1\<close> is the \<open>Inl\<close> of its
  result. Two more outcomes are not clean returns and are \<open>Inl\<close> as well:
  \<^item> \<open>ResultWithErrorSet e\<close>: the function returns a result (not \<^verbatim>\<open>NULL\<close>, not \<open>-1\<close>)
    while the exception \<open>e\<close>, set earlier in the call and never cleared, is still set.
    The result itself is not recorded. For a method CPython then raises
    \<^verbatim>\<open>SystemError\<close> (``returned a result with an exception set'').
  \<^item> \<open>ReadPastKeystr\<close>: the call hands the 32 bytes of \<^verbatim>\<open>keystr\<close> without a terminator
    to the string functions, which read past the array. The behaviour is undefined:
    the model records that this happened and nothing else, and a tree paired with
    this outcome does not describe the tree the call leaves.
\<close>

datatype pyobj = PyNone | PyBool bool | PyLong int | PyUnicode string | PyObject nat

datatype pyerr =
  ValueError | KeyError | TypeError | StopIteration | OverflowError
  | ResultWithErrorSet pyerr
  | ReadPastKeystr

text \<open>
  The end of a function that returns \<open>v\<close> when it has set no exception since the key was
  converted: the error indicator \<open>pending\<close> is what the conversion left.
\<close>

fun py_return :: "pyerr option \<Rightarrow> 'a \<Rightarrow> pyerr + 'a" where
  "py_return None v = Inr v"
| "py_return (Some e) v = Inl (ResultWithErrorSet e)"

section \<open>The key codec of \<^verbatim>\<open>pytricia.c\<close>\<close>

text \<open>
  \<^verbatim>\<open>prefix_t\<close> as \<^verbatim>\<open>make_prefix\<close> fills it: the family is always \<^verbatim>\<open>AF_INET\<close>,
  the address has four bytes.
\<close>

record prefix_t =
  add_sin :: "32 word"
  bitlen :: nat

definition ADDRSTRLEN :: nat where
  "ADDRSTRLEN = 32"

definition inet_ntop_with_prefix :: "32 word \<Rightarrow> string" where
  "inet_ntop_with_prefix src = inet_ntop src @ ''/32''"

text \<open>
  \<^verbatim>\<open>PyLong_AsLong\<close>: the value and the error indicator it leaves. For an integer
  outside \<^verbatim>\<open>long\<close> (64 bits) it returns \<open>-1\<close> and sets \<^verbatim>\<open>OverflowError\<close>.
  \<^verbatim>\<open>htonl\<close> keeps the low 32 bits and stores them in network byte order, the order in
  which every address is read here.
\<close>

definition PyLong_AsLong :: "int \<Rightarrow> int \<times> pyerr option" where
  "PyLong_AsLong n =
     (if - (2 ^ 63) \<le> n \<and> n < 2 ^ 63 then (n, None) else (- 1, Some OverflowError))"

definition htonl :: "int \<Rightarrow> 32 word" where
  "htonl v = word_of_int (v mod 2 ^ 32)"

text \<open>
  \<^verbatim>\<open>convert_key_to_cstring\<close> (the Python 3 branch): \<open>None\<close> is the return value
  \<open>-1\<close>; \<open>Some (keystr, pending)\<close> is the return value 0 with the bytes written to
  the array \<^verbatim>\<open>keystr\<close> before its first zero byte, all \<^verbatim>\<open>ADDRSTRLEN\<close> bytes when
  there is none, and the error indicator that the call leaves set.
  \<^verbatim>\<open>strncpy\<close> copies at most \<^verbatim>\<open>ADDRSTRLEN\<close> bytes, so a text of that many bytes
  or more fills the array and leaves it without a terminator. The integer branch
  does not test the result of \<^verbatim>\<open>PyLong_AsLong\<close>: what that call set stays set.
\<close>

fun convert_key_to_cstring :: "pyobj \<Rightarrow> (string \<times> pyerr option) option" where
  "convert_key_to_cstring (PyUnicode temp) = Some (take ADDRSTRLEN (c_str temp), None)"
| "convert_key_to_cstring (PyLong n) =
     Some (inet_ntop_with_prefix (htonl (fst (PyLong_AsLong n))), snd (PyLong_AsLong n))"
| "convert_key_to_cstring (PyBool b) =
     Some (inet_ntop_with_prefix (htonl (fst (PyLong_AsLong (if b then 1 else 0)))),
           snd (PyLong_AsLong (if b then 1 else 0)))"
| "convert_key_to_cstring _ = None"

text \<open>
  The C string that a function reads when it is given \<^verbatim>\<open>keystr\<close>: the bytes before
  the first zero byte of the array. \<open>None\<close>: the array holds \<^verbatim>\<open>ADDRSTRLEN\<close> bytes
  and no zero, and the read runs past its end.
\<close>

definition keystr_cstr :: "string \<Rightarrow> string option" where
  "keystr_cstr keystr = (if length keystr < ADDRSTRLEN then Some keystr else None)"

text \<open>\<^verbatim>\<open>strchr(cidr, '/')\<close>: the index of the first slash.\<close>

definition strchr_slash :: "string \<Rightarrow> nat option" where
  "strchr_slash cidr =
     (if CHR ''/'' \<in> set cidr then Some (length (takeWhile (\<lambda>c. c \<noteq> CHR ''/'') cidr)) else None)"

text \<open>
  \<^verbatim>\<open>parse_cidr\<close>: \<open>None\<close> is the return value \<open>-1\<close>; \<open>Some (subnet, masklen)\<close> the
  return value 0 with both outputs. \<^verbatim>\<open>masklen\<close> is an \<^verbatim>\<open>unsigned short\<close>:
  the assignment keeps the low 16 bits of the \<^verbatim>\<open>int\<close>.
\<close>

definition parse_cidr :: "string \<Rightarrow> (32 word \<times> nat) option" where
  "parse_cidr cidr =
     (case strchr_slash cidr of
        Some i \<Rightarrow>
          (let len = (if i < 32 then i else 31);
               buffer = take len cidr;
               masklen = nat (atoi (drop (i + 1) cidr) mod 2 ^ 16)
           in (case inet_aton buffer of
                 None \<Rightarrow> None
               | Some addr \<Rightarrow> Some (addr, masklen)))
      | None \<Rightarrow>
          (case inet_aton cidr of
             None \<Rightarrow> None
           | Some addr \<Rightarrow> Some (addr, 32)))"

definition make_prefix :: "32 word \<Rightarrow> nat \<Rightarrow> prefix_t" where
  "make_prefix addr width = \<lparr>add_sin = addr, bitlen = width\<rparr>"

definition pystr_to_prefix :: "string \<Rightarrow> prefix_t option" where
  "pystr_to_prefix str =
     (case parse_cidr str of
        None \<Rightarrow> None
      | Some (subnet, masklen) \<Rightarrow> Some (make_prefix subnet masklen))"

section \<open>The trie engine\<close>

text \<open>
  \<^verbatim>\<open>patricia.c\<close> and \<^verbatim>\<open>patricia.h\<close> are not among the sources: the node and tree
  types and the engine's operations are modelled from the specification.
\<close>

text \<open>
  Modelled from the spec: the bit at position \<open>i\<close> of a key, counted from the most
  significant bit of the first byte. A key made by \<^verbatim>\<open>make_prefix\<close> has 32 bits.
\<close>

definition bit_at :: "32 word \<Rightarrow> nat \<Rightarrow> bool" where
  "bit_at a i = (i < 32 \<and> bit a (31 - i))"

text \<open>Modelled from the spec: the leading \<open>n\<close> bits of a key (``bits masked to bitlen'').\<close>

definition kbits :: "32 word \<Rightarrow> nat \<Rightarrow> bool list" where
  "kbits a n = map (bit_at a) [0..<n]"

text \<open>Modelled from the spec: two keys match on their leading \<open>n\<close> bits.\<close>

definition comp_with_mask :: "32 word \<Rightarrow> 32 word \<Rightarrow> nat \<Rightarrow> bool" where
  "comp_with_mask a b n = (kbits a n = kbits b n)"

text \<open>
  Modelled from the spec: the first bit position, scanning from the most significant
  bit, at which two keys differ, and \<open>n\<close> when they agree on the leading \<open>n\<close> bits.
\<close>

definition differ_bit :: "32 word \<Rightarrow> 32 word \<Rightarrow> nat \<Rightarrow> nat" where
  "differ_bit a b n = length (takeWhile (\<lambda>i. bit_at a i = bit_at b i) [0..<n])"

text \<open>
  Modelled from the spec: a node holds \<open>bits\<close>, \<open>bitlen\<close>, \<open>is_real\<close>, \<open>value\<close>
  (the \<^verbatim>\<open>data\<close> pointer of \<^verbatim>\<open>pytricia.c\<close>, \<open>None\<close> when it is \<^verbatim>\<open>NULL\<close>), and the
  children \<open>left\<close> and \<open>right\<close>, in this order. \<open>Null\<close> is the absent node.
\<close>

datatype patricia_node =
  Null
  | Node "32 word" nat bool "pyobj option" patricia_node patricia_node

text \<open>
  The \<^verbatim>\<open>prefix\<close> pointer that \<^verbatim>\<open>pytricia.c\<close> reads from a node: present exactly on
  the real nodes.
\<close>

fun node_prefix :: "patricia_node \<Rightarrow> prefix_t option" where
  "node_prefix Null = None"
| "node_prefix (Node nb nbl rl v l r) =
     (if rl then Some \<lparr>add_sin = nb, bitlen = nbl\<rparr> else None)"

fun node_data :: "patricia_node \<Rightarrow> pyobj option" where
  "node_data Null = None"
| "node_data (Node nb nbl rl v l r) = v"

text \<open>
  Modelled from the spec: the tree owns its root (\<^verbatim>\<open>head\<close> in \<^verbatim>\<open>pytricia.c\<close>), the
  constant \<open>maxbits\<close> and the count of real nodes.
\<close>

record patricia_tree =
  head :: patricia_node
  maxbits :: nat
  num_active_node :: nat

text \<open>
  Modelled from the spec: the largest number of bits the engine is built for,
  the bound that \<^verbatim>\<open>pytricia_init\<close> reports (``between 0 and 128, inclusive'').
\<close>

definition PATRICIA_MAXBITS :: nat where
  "PATRICIA_MAXBITS = 128"

text \<open>Modelled from the spec: a new tree is empty and keeps the given \<open>maxbits\<close>.\<close>

definition New_Patricia :: "nat \<Rightarrow> patricia_tree" where
  "New_Patricia n = \<lparr>head = Null, maxbits = n, num_active_node = 0\<rparr>"

text \<open>
  Modelled from the spec: the engine hands out node handles, pointers in
  \<^verbatim>\<open>pytricia.c\<close>. Here a handle is the path from the root to the node, \<open>False\<close> for
  the left child and \<open>True\<close> for the right child, and \<open>node_at\<close> follows it.
\<close>

type_synonym handle = "bool list"

fun node_at :: "patricia_node \<Rightarrow> handle \<Rightarrow> patricia_node" where
  "node_at n [] = n"
| "node_at Null (d # h) = Null"
| "node_at (Node nb nbl rl v l r) (d # h) = (if d then node_at r h else node_at l h)"

text \<open>
  The assignment \<^verbatim>\<open>node->data = value\<close> of \<^verbatim>\<open>pytricia_assign_subscript\<close>, through a
  handle: only the value slot of the node changes.
\<close>

fun set_data :: "handle \<Rightarrow> pyobj option \<Rightarrow> patricia_node \<Rightarrow> patricia_node" where
  "set_data h x Null = Null"
| "set_data [] x (Node nb nbl rl v l r) = Node nb nbl rl x l r"
| "set_data (d # h) x (Node nb nbl rl v l r) =
     (if d then Node nb nbl rl v l (set_data h x r) else Node nb nbl rl v (set_data h x l) r)"

text \<open>
  Modelled from the spec: \<open>find_exact\<close>. It descends by the branch bits; at the node
  whose \<open>bitlen\<close> equals the query's, the bits must match and the node must be real.
\<close>

fun search_exact :: "patricia_node \<Rightarrow> 32 word \<Rightarrow> nat \<Rightarrow> handle option" where
  "search_exact Null a bl = None"
| "search_exact (Node nb nbl rl v l r) a bl =
     (if nbl < bl
      then (if bit_at a nbl then map_option (Cons True) (search_exact r a bl)
            else map_option (Cons False) (search_exact l a bl))
      else if nbl = bl \<and> rl \<and> comp_with_mask nb a bl then Some []
      else None)"

text \<open>Modelled from the spec: \<open>find_exact\<close> on the tree, from its root.\<close>

definition patricia_search_exact :: "patricia_tree \<Rightarrow> prefix_t \<Rightarrow> handle option" where
  "patricia_search_exact t p = search_exact (head t) (add_sin p) (bitlen p)"

text \<open>
  Modelled from the spec: \<open>find_best\<close>. At each node whose \<open>bitlen\<close> does not exceed
  the query's, the node's key must match the query's leading bits; a matching real
  node becomes the candidate; the descent stops at a longer node, at a mismatch or
  where the child is absent, and the last candidate is returned. \<open>here\<close> is the
  handle of the node under inspection.
\<close>

fun search_best :: "patricia_node \<Rightarrow> 32 word \<Rightarrow> nat \<Rightarrow> handle \<Rightarrow> handle option \<Rightarrow> handle option" where
  "search_best Null a bl here best = best"
| "search_best (Node nb nbl rl v l r) a bl here best =
     (if nbl > bl then best
      else if \<not> comp_with_mask nb a nbl then best
      else if nbl = bl then (if rl then Some here else best)
      else if bit_at a nbl
      then search_best r a bl (here @ [True]) (if rl then Some here else best)
      else search_best l a bl (here @ [False]) (if rl then Some here else best))"

text \<open>
  Modelled from the spec: \<open>find_best\<close> on the tree, from its root and with no
  candidate yet.
\<close>

definition patricia_search_best :: "patricia_tree \<Rightarrow> prefix_t \<Rightarrow> handle option" where
  "patricia_search_best t p = search_best (head t) (add_sin p) (bitlen p) [] None"

text \<open>
  Modelled from the spec: \<open>insert\<close>. The descent follows the branch bits of the new
  key until it runs off the structure or meets a node that is not shorter than the
  key; \<open>reached\<close> is the key of the node where it stops.
\<close>

fun reached :: "patricia_node \<Rightarrow> 32 word \<Rightarrow> nat \<Rightarrow> 32 word \<times> nat" where
  "reached Null a bl = (a, bl)"
| "reached (Node nb nbl rl v l r) a bl =
     (if nbl < bl
      then (if bit_at a nbl
            then (if r = Null then (nb, nbl) else reached r a bl)
            else (if l = Null then (nb, nbl) else reached l a bl))
      else (nb, nbl))"

text \<open>Modelled from the spec: a new real leaf, its value slot still empty.\<close>

definition leaf :: "32 word \<Rightarrow> nat \<Rightarrow> patricia_node" where
  "leaf a bl = Node a bl True None Null Null"

text \<open>
  Modelled from the spec: the second half of \<open>insert\<close>. \<open>splice_node n a bl d ra\<close> places the key \<open>(a, bl)\<close> in the tree \<open>n\<close>, where \<open>d\<close> is
  the first bit at which the key differs from the reached key \<open>ra\<close>. It walks down the
  path of the key to the first node that is not shorter than \<open>d\<close>. There
  \<^item> a node of the key's own length, the key's bits matching, is the key's node: it is
    returned unchanged when it is real, and made real when it is a glue node;
  \<^item> a node of length \<open>d\<close> gets the new leaf as a child;
  \<^item> when the key ends at \<open>d\<close>, the new node takes the place of the node found and
    adopts it as its child, on the side of the reached key's bit;
  \<^item> otherwise a glue node of length \<open>d\<close> takes that place, with the new leaf and the
    node found as its children.
  The result is the new subtree, the handle of the key's node, and whether a node
  became real.
\<close>

fun splice_node :: "patricia_node \<Rightarrow> 32 word \<Rightarrow> nat \<Rightarrow> nat \<Rightarrow> 32 word \<Rightarrow> patricia_node \<times> handle \<times> bool" where
  "splice_node Null a bl d ra = (leaf a bl, [], True)"
| "splice_node (Node nb nbl rl v l r) a bl d ra =
     (if nbl < d
      then (if bit_at a nbl
            then (case splice_node r a bl d ra of (r', h, c) \<Rightarrow> (Node nb nbl rl v l r', True # h, c))
            else (case splice_node l a bl d ra of (l', h, c) \<Rightarrow> (Node nb nbl rl v l' r, False # h, c)))
      else if d = bl \<and> nbl = bl
      then (if rl then (Node nb nbl rl v l r, [], False) else (Node a bl True v l r, [], True))
      else if nbl = d
      then (if bit_at a nbl then (Node nb nbl rl v l (leaf a bl), [True], True)
            else (Node nb nbl rl v (leaf a bl) r, [False], True))
      else if bl = d
      then (if bit_at ra bl then (Node a bl True None Null (Node nb nbl rl v l r), [], True)
            else (Node a bl True None (Node nb nbl rl v l r) Null, [], True))
      else (if bit_at a d
            then (Node a d False None (Node nb nbl rl v l r) (leaf a bl), [True], True)
            else (Node a d False None (leaf a bl) (Node nb nbl rl v l r), [False], True)))"

text \<open>
  Modelled from the spec: \<open>insert\<close> as a whole. The differing bit is looked for among
  the bits that the key and the reached key both have; the count of real nodes grows
  when a node became real.
\<close>

definition patricia_lookup :: "patricia_tree \<Rightarrow> prefix_t \<Rightarrow> patricia_tree \<times> handle" where
  "patricia_lookup t p =
     (let a = add_sin p; bl = bitlen p;
          ra = fst (reached (head t) a bl); rbl = snd (reached (head t) a bl);
          d = differ_bit a ra (min rbl bl)
      in (case splice_node (head t) a bl d ra of
            (n', h, c) \<Rightarrow>
              (t\<lparr>head := n', num_active_node := (if c then num_active_node t + 1 else num_active_node t)\<rparr>, h)))"

text \<open>
  Modelled from the spec: \<^verbatim>\<open>make_and_lookup\<close>, the key codec followed by \<open>insert\<close>;
  \<open>None\<close> is the \<^verbatim>\<open>NULL\<close> that \<^verbatim>\<open>pytricia_assign_subscript\<close> tests for.
\<close>

definition make_and_lookup :: "patricia_tree \<Rightarrow> string \<Rightarrow> (patricia_tree \<times> handle) option" where
  "make_and_lookup t str =
     (case pystr_to_prefix str of
        None \<Rightarrow> None
      | Some p \<Rightarrow> Some (patricia_lookup t p))"

text \<open>
  Modelled from the spec: \<open>remove\<close>. A node with two children is demoted to a glue
  node (value and real flag cleared). A node with at most one child is spliced out:
  its parent is linked to the remaining child, or to nothing; a glue parent that has
  lost a child this way and is left with at most one child is spliced out in the same
  way, and so on upwards.
\<close>

fun collapse :: "patricia_node \<Rightarrow> patricia_node" where
  "collapse Null = Null"
| "collapse (Node nb nbl rl v l r) =
     (if \<not> rl \<and> (l = Null \<or> r = Null) then (if l = Null then r else l)
      else Node nb nbl rl v l r)"

fun remove_at :: "handle \<Rightarrow> patricia_node \<Rightarrow> patricia_node" where
  "remove_at h Null = Null"
| "remove_at [] (Node nb nbl rl v l r) =
     (if l \<noteq> Null \<and> r \<noteq> Null then Node nb nbl False None l r
      else if l \<noteq> Null then l else r)"
| "remove_at (True # h) (Node nb nbl rl v l r) =
     (let r' = remove_at h r in
      if r' = Null then collapse (Node nb nbl rl v l Null) else Node nb nbl rl v l r')"
| "remove_at (False # h) (Node nb nbl rl v l r) =
     (let l' = remove_at h l in
      if l' = Null then collapse (Node nb nbl rl v Null r) else Node nb nbl rl v l' r)"

text \<open>
  Modelled from the spec: \<open>remove\<close> on the tree; the count of real nodes is
  decremented.
\<close>

definition patricia_remove :: "patricia_tree \<Rightarrow> handle \<Rightarrow> patricia_tree" where
  "patricia_remove t h =
     t\<lparr>head := remove_at h (head t), num_active_node := num_active_node t - 1\<rparr>"

text \<open>
  The traversal step in the body of \<^verbatim>\<open>pytriciaiter_next\<close> (``copied from patricia.h
  macros''): from the node \<^verbatim>\<open>Xrn\<close> go to the left child, pushing the right child if
  there is one; else to the right child; else pop the stack; else stop. The stack is a
  list, its top first. The result is the next \<^verbatim>\<open>Xrn\<close> and the stack.
\<close>

fun walk_advance :: "patricia_node \<Rightarrow> patricia_node list \<Rightarrow> patricia_node \<times> patricia_node list" where
  "walk_advance Null st = (Null, st)"
| "walk_advance (Node nb nbl rl v l r) st =
     (if l \<noteq> Null then (l, if r \<noteq> Null then r # st else st)
      else if r \<noteq> Null then (r, st)
      else (case st of x # st' \<Rightarrow> (x, st') | [] \<Rightarrow> (Null, [])))"

fun count_nodes :: "patricia_node \<Rightarrow> nat" where
  "count_nodes Null = 0"
| "count_nodes (Node nb nbl rl v l r) = Suc (count_nodes l + count_nodes r)"

lemma walk_advance_less:
  "count_nodes (fst (walk_advance (Node nb nbl rl v l r) st))
     + sum_list (map count_nodes (snd (walk_advance (Node nb nbl rl v l r) st)))
   < count_nodes (Node nb nbl rl v l r) + sum_list (map count_nodes st)"
  by (cases l; cases r; cases st) simp_all

text \<open>
  Modelled from the spec: the macro of \<^verbatim>\<open>patricia.h\<close> that repeats this step from
  \<^verbatim>\<open>Xhead\<close> with an empty stack.
  \<^verbatim>\<open>PATRICIA_WALK (Xhead, Xnode) { body } PATRICIA_WALK_END\<close> runs the body on every
  node with a prefix: \<open>patricia_walk\<close> lists these nodes in the order of the loop.
\<close>

function patricia_walk :: "patricia_node \<Rightarrow> patricia_node list \<Rightarrow> patricia_node list" where
  "patricia_walk Null st = []"
| "patricia_walk (Node nb nbl rl v l r) st =
     (if rl then [Node nb nbl rl v l r] else []) @
     patricia_walk (fst (walk_advance (Node nb nbl rl v l r) st))
                   (snd (walk_advance (Node nb nbl rl v l r) st))"
  by pat_completeness auto
termination
  by (relation "measure (\<lambda>(n, st). count_nodes n + sum_list (map count_nodes st))")
     (simp_all only: wf_measure in_measure prod.case walk_advance_less)

definition PATRICIA_WALK :: "patricia_node \<Rightarrow> patricia_node list" where
  "PATRICIA_WALK Xhead = patricia_walk Xhead []"

text \<open>Modelled from the spec: the canonical text \<open>address/length\<close> of a prefix.\<close>

function utoa :: "nat \<Rightarrow> string" where
  "utoa n = (if n < 10 then [digit_char n] else utoa (n div 10) @ [digit_char (n mod 10)])"
  by pat_completeness auto
termination
  by (relation "measure id") simp_all

declare utoa.simps [simp del]

definition prefix_toa2x :: "prefix_t \<Rightarrow> string" where
  "prefix_toa2x p = inet_ntop (add_sin p) @ ''/'' @ utoa (bitlen p)"

section \<open>The Python type \<^verbatim>\<open>PyTricia\<close>\<close>

text \<open>
  A \<^verbatim>\<open>PyTricia\<close> object is its tree \<^verbatim>\<open>m_tree\<close>. A function that changes the tree
  returns the tree it leaves. Reference counts and allocation failures are not part of
  the model. Every function that takes a key passes \<^verbatim>\<open>keystr\<close> on as a C string
  (\<open>keystr_cstr\<close>), and where it returns without having set an exception of its own
  it returns with the error indicator that the conversion of the key left
  (\<open>py_return\<close>).
\<close>

text \<open>
  \<^verbatim>\<open>PyArg_ParseTuple(args, "|i", &prefixlen)\<close>: at most one argument, an integer that
  fits \<^verbatim>\<open>int\<close>; \<open>None\<close> when the parse fails.
\<close>

fun parse_opt_int :: "pyobj list \<Rightarrow> int \<Rightarrow> int option" where
  "parse_opt_int [] dflt = Some dflt"
| "parse_opt_int [PyLong n] dflt = (if - (2 ^ 31) \<le> n \<and> n < 2 ^ 31 then Some n else None)"
| "parse_opt_int [PyBool b] dflt = Some (if b then 1 else 0)"
| "parse_opt_int _ dflt = None"

definition pytricia_init :: "pyobj list \<Rightarrow> (pyerr + unit) \<times> patricia_tree" where
  "pytricia_init args =
     (case parse_opt_int args 32 of
        None \<Rightarrow> (Inl ValueError, New_Patricia 1)
      | Some prefixlen \<Rightarrow>
          if prefixlen < 0 \<or> prefixlen > int PATRICIA_MAXBITS
          then (Inl ValueError, New_Patricia 1)
          else (Inr (), New_Patricia (nat prefixlen)))"

definition pytricia_length :: "patricia_tree \<Rightarrow> nat" where
  "pytricia_length self = foldl (\<lambda>count node. count + 1) 0 (PATRICIA_WALK (head self))"

definition pytricia_subscript :: "patricia_tree \<Rightarrow> pyobj \<Rightarrow> pyerr + pyobj option" where
  "pytricia_subscript self key =
     (case convert_key_to_cstring key of
        None \<Rightarrow> Inl ValueError
      | Some (keystr, pending) \<Rightarrow>
          (case keystr_cstr keystr of
             None \<Rightarrow> Inl ReadPastKeystr
           | Some str \<Rightarrow>
               (case pystr_to_prefix str of
                  None \<Rightarrow> Inl ValueError
                | Some subnet \<Rightarrow>
                    (case patricia_search_best self subnet of
                       None \<Rightarrow> Inl KeyError
                     | Some node \<Rightarrow> py_return pending (node_data (node_at (head self) node))))))"

definition pytricia_internal_delete :: "patricia_tree \<Rightarrow> pyobj \<Rightarrow> (pyerr + unit) \<times> patricia_tree" where
  "pytricia_internal_delete self key =
     (case convert_key_to_cstring key of
        None \<Rightarrow> (Inl ValueError, self)
      | Some (keystr, pending) \<Rightarrow>
          (case keystr_cstr keystr of
             None \<Rightarrow> (Inl ReadPastKeystr, self)
           | Some str \<Rightarrow>
               (case pystr_to_prefix str of
                  None \<Rightarrow> (Inl ValueError, self)
                | Some pfx \<Rightarrow>
                    (case patricia_search_exact self pfx of
                       None \<Rightarrow> (Inl KeyError, self)
                     | Some node \<Rightarrow> (py_return pending (), patricia_remove self node)))))"

text \<open>A \<^verbatim>\<open>NULL\<close> value (\<open>None\<close>) is the deletion \<^verbatim>\<open>del t[key]\<close>.\<close>

definition pytricia_assign_subscript ::
  "patricia_tree \<Rightarrow> pyobj \<Rightarrow> pyobj option \<Rightarrow> (pyerr + unit) \<times> patricia_tree" where
  "pytricia_assign_subscript self key val =
     (case val of
        None \<Rightarrow> pytricia_internal_delete self key
      | Some v \<Rightarrow>
          (case convert_key_to_cstring key of
             None \<Rightarrow> (Inl ValueError, self)
           | Some (keystr, pending) \<Rightarrow>
               (case keystr_cstr keystr of
                  None \<Rightarrow> (Inl ReadPastKeystr, self)
                | Some str \<Rightarrow>
                    (case make_and_lookup self str of
                       None \<Rightarrow> (Inl ValueError, self)
                     | Some (t', node) \<Rightarrow>
                         (py_return pending (), t'\<lparr>head := set_data node (Some v) (head t')\<rparr>)))))"

fun pytricia_insert :: "patricia_tree \<Rightarrow> pyobj list \<Rightarrow> (pyerr + pyobj) \<times> patricia_tree" where
  "pytricia_insert self [key, val] =
     (case pytricia_assign_subscript self key (Some val) of
        (Inl e, t') \<Rightarrow> (Inl e, t')
      | (Inr u, t') \<Rightarrow> (Inr PyNone, t'))"
| "pytricia_insert self args = (Inl TypeError, self)"

fun pytricia_delitem :: "patricia_tree \<Rightarrow> pyobj list \<Rightarrow> (pyerr + pyobj) \<times> patricia_tree" where
  "pytricia_delitem self [key] =
     (case pytricia_internal_delete self key of
        (Inl e, t') \<Rightarrow> (Inl e, t')
      | (Inr u, t') \<Rightarrow> (Inr PyNone, t'))"
| "pytricia_delitem self args = (Inl ValueError, self)"

text \<open>
  \<^verbatim>\<open>pytricia_insert\<close> and \<^verbatim>\<open>pytricia_delitem\<close> return \<^verbatim>\<open>NULL\<close> when the inner call
  returned \<open>-1\<close>, and \<^verbatim>\<open>None\<close> otherwise, also when the inner call returned 0 with
  an exception still set: the outcome of the inner call is passed on.
\<close>

text \<open>
  \<^verbatim>\<open>pytricia_get\<close> after \<^verbatim>\<open>PyArg_ParseTuple(args, "O|O:get", &key, &defvalue)\<close>:
  \<open>defvalue\<close> is \<open>None\<close> when the caller gave no default.
\<close>

definition get_body :: "patricia_tree \<Rightarrow> pyobj \<Rightarrow> pyobj option \<Rightarrow> pyerr + pyobj option" where
  "get_body obj key defvalue =
     (case convert_key_to_cstring key of
        None \<Rightarrow> Inl ValueError
      | Some (keystr, pending) \<Rightarrow>
          (case keystr_cstr keystr of
             None \<Rightarrow> Inl ReadPastKeystr
           | Some str \<Rightarrow>
               (case pystr_to_prefix str of
                  None \<Rightarrow> Inl ValueError
                | Some pfx \<Rightarrow>
                    (case patricia_search_best obj pfx of
                       None \<Rightarrow>
                         (case defvalue of
                            Some d \<Rightarrow> py_return pending (Some d)
                          | None \<Rightarrow> py_return pending (Some PyNone))
                     | Some node \<Rightarrow> py_return pending (node_data (node_at (head obj) node))))))"

fun pytricia_get :: "patricia_tree \<Rightarrow> pyobj list \<Rightarrow> pyerr + pyobj option" where
  "pytricia_get obj [key] = get_body obj key None"
| "pytricia_get obj [key, defvalue] = get_body obj key (Some defvalue)"
| "pytricia_get obj args = Inl TypeError"

text \<open>\<^verbatim>\<open>pytricia_contains\<close>: \<open>Inr True\<close> is 1, \<open>Inr False\<close> is 0, \<open>Inl\<close> is \<open>-1\<close>.\<close>

definition pytricia_contains :: "patricia_tree \<Rightarrow> pyobj \<Rightarrow> pyerr + bool" where
  "pytricia_contains self key =
     (case convert_key_to_cstring key of
        None \<Rightarrow> Inl ValueError
      | Some (keystr, pending) \<Rightarrow>
          (case keystr_cstr keystr of
             None \<Rightarrow> Inl ReadPastKeystr
           | Some str \<Rightarrow>
               (case pystr_to_prefix str of
                  None \<Rightarrow> Inl ValueError
                | Some pfx \<Rightarrow>
                    (case patricia_search_best self pfx of
                       Some node \<Rightarrow> py_return pending True
                     | None \<Rightarrow> py_return pending False))))"

fun pytricia_has_key :: "patricia_tree \<Rightarrow> pyobj list \<Rightarrow> pyerr + pyobj" where
  "pytricia_has_key self [key] =
     (case convert_key_to_cstring key of
        None \<Rightarrow> Inl ValueError
      | Some (keystr, pending) \<Rightarrow>
          (case keystr_cstr keystr of
             None \<Rightarrow> Inl ReadPastKeystr
           | Some str \<Rightarrow>
               (case pystr_to_prefix str of
                  None \<Rightarrow> Inl ValueError
                | Some pfx \<Rightarrow>
                    (case patricia_search_exact self pfx of
                       Some node \<Rightarrow> py_return pending (PyBool True)
                     | None \<Rightarrow> py_return pending (PyBool False)))))"
| "pytricia_has_key self args = Inl TypeError"

section \<open>The iterator \<^verbatim>\<open>PyTriciaIter\<close>\<close>

text \<open>
  The fields of \<^verbatim>\<open>PyTriciaIter\<close> that the traversal uses. \<open>m_Xstack\<close> is the part of
  the array below \<^verbatim>\<open>m_Xsp\<close>, its top first; on a well-formed tree it never holds more
  than 32 entries (\<open>walk_stack_within_array\<close>), and the array has room for 129. A node
  pointer is the subtree it points to.
\<close>

record PyTriciaIter =
  m_Xnode :: patricia_node
  m_Xhead :: patricia_node
  m_Xstack :: "patricia_node list"
  m_Xrn :: patricia_node

definition pytricia_iter :: "patricia_tree \<Rightarrow> PyTriciaIter" where
  "pytricia_iter self = \<lparr>m_Xnode = Null, m_Xhead = head self, m_Xstack = [], m_Xrn = head self\<rparr>"

text \<open>
  The loop of \<^verbatim>\<open>pytriciaiter_next\<close> on \<open>m_Xrn\<close> and the stack: it stops at the first
  node with a prefix, or when \<open>m_Xrn\<close> is \<^verbatim>\<open>NULL\<close>. The result is \<open>m_Xnode\<close>, \<open>m_Xrn\<close>
  and the stack when it stops.
\<close>

function next_loop :: "patricia_node \<Rightarrow> patricia_node list \<Rightarrow> patricia_node \<times> patricia_node \<times> patricia_node list" where
  "next_loop Null st = (Null, Null, st)"
| "next_loop (Node nb nbl rl v l r) st =
     (if rl
      then (Node nb nbl rl v l r,
            fst (walk_advance (Node nb nbl rl v l r) st),
            snd (walk_advance (Node nb nbl rl v l r) st))
      else next_loop (fst (walk_advance (Node nb nbl rl v l r) st))
                     (snd (walk_advance (Node nb nbl rl v l r) st)))"
  by pat_completeness auto
termination
  by (relation "measure (\<lambda>(n, st). count_nodes n + sum_list (map count_nodes st))")
     (simp_all only: wf_measure in_measure prod.case walk_advance_less)

definition pytriciaiter_next :: "PyTriciaIter \<Rightarrow> (pyerr + pyobj) \<times> PyTriciaIter" where
  "pytriciaiter_next iter =
     (case next_loop (m_Xrn iter) (m_Xstack iter) of
        (xnode, rn, st) \<Rightarrow>
          (case node_prefix xnode of
             None \<Rightarrow> Inl StopIteration
           | Some p \<Rightarrow> Inr (PyUnicode (prefix_toa2x p)),
           iter\<lparr>m_Xnode := xnode, m_Xstack := st, m_Xrn := rn\<rparr>))"

section \<open>Abstract view and invariant of the trie\<close>

text \<open>
  The key of a prefix is the list of its significant bits: two prefixes are the same
  (bits masked to bitlen, bitlen) pair exactly when their keys are equal, and a prefix
  covers another one exactly when its key is a prefix of the other key.
\<close>

definition key_of :: "prefix_t \<Rightarrow> bool list" where
  "key_of p = kbits (add_sin p) (bitlen p)"


text \<open>The prefixes of the real nodes, one entry for each real node, parent first.\<close>

fun real_prefixes :: "patricia_node \<Rightarrow> prefix_t list" where
  "real_prefixes Null = []"
| "real_prefixes (Node nb nbl rl v l r) =
     (if rl then [\<lparr>add_sin = nb, bitlen = nbl\<rparr>] else []) @ real_prefixes l @ real_prefixes r"

definition real_keys :: "patricia_node \<Rightarrow> bool list list" where
  "real_keys n = map key_of (real_prefixes n)"

text \<open>The real nodes with their values.\<close>

fun real_entries :: "patricia_node \<Rightarrow> (bool list \<times> pyobj option) list" where
  "real_entries Null = []"
| "real_entries (Node nb nbl rl v l r) =
     (if rl then [(kbits nb nbl, v)] else []) @ real_entries l @ real_entries r"

text \<open>
  The invariant of a subtree below the path \<open>ctx\<close>: every node's key extends the path
  to it by at least the branch bit, and no node is longer than \<open>m\<close> bits.
\<close>

fun trie_inv :: "nat \<Rightarrow> bool list \<Rightarrow> patricia_node \<Rightarrow> bool" where
  "trie_inv m ctx Null = True"
| "trie_inv m ctx (Node nb nbl rl v l r) =
     (nbl \<le> m \<and> prefix ctx (kbits nb nbl) \<and>
      trie_inv m (kbits nb nbl @ [False]) l \<and> trie_inv m (kbits nb nbl @ [True]) r)"

text \<open>
  A tree is well formed when its nodes satisfy the invariant with keys no longer than
  the tree's \<open>maxbits\<close> and than the 32 bits of an IPv4 address.
\<close>

definition wf_tree :: "patricia_tree \<Rightarrow> bool" where
  "wf_tree t = trie_inv (min 32 (maxbits t)) [] (head t)"

text \<open>The real nodes themselves, parent first, left subtree before right subtree.\<close>

fun real_nodes :: "patricia_node \<Rightarrow> patricia_node list" where
  "real_nodes Null = []"
| "real_nodes (Node nb nbl rl v l r) =
     (if rl then [Node nb nbl rl v l r] else []) @ real_nodes l @ real_nodes r"

text \<open>The results of \<open>k\<close> successive calls of \<^verbatim>\<open>pytriciaiter_next\<close> on an iterator.\<close>

fun iter_take :: "nat \<Rightarrow> PyTriciaIter \<Rightarrow> (pyerr + pyobj) list" where
  "iter_take 0 iter = []"
| "iter_take (Suc k) iter = fst (pytriciaiter_next iter) # iter_take k (snd (pytriciaiter_next iter))"

text \<open>
  The whole codec, from the Python key to the prefix: \<^verbatim>\<open>convert_key_to_cstring\<close>, then
  \<^verbatim>\<open>pystr_to_prefix\<close> on the C string in \<^verbatim>\<open>keystr\<close>. \<open>key_pending\<close> is the error
  indicator that the conversion leaves set.
\<close>

definition key_to_prefix :: "pyobj \<Rightarrow> prefix_t option" where
  "key_to_prefix key =
     (case convert_key_to_cstring key of
        None \<Rightarrow> None
      | Some (keystr, pending) \<Rightarrow>
          (case keystr_cstr keystr of None \<Rightarrow> None | Some str \<Rightarrow> pystr_to_prefix str))"

definition key_pending :: "pyobj \<Rightarrow> pyerr option" where
  "key_pending key =
     (case convert_key_to_cstring key of None \<Rightarrow> None | Some (keystr, pending) \<Rightarrow> pending)"

text \<open>
  The keys that the conversion takes without harm: a text key fits \<^verbatim>\<open>keystr\<close> when it
  is shorter than the array, so that its terminator is copied too; an integer key fits
  \<^verbatim>\<open>long\<close> when it lies in the 64-bit range, so that \<^verbatim>\<open>PyLong_AsLong\<close> sets no
  error. Every other object fits, and is rejected by the conversion.
\<close>

fun fits_keystr :: "pyobj \<Rightarrow> bool" where
  "fits_keystr (PyUnicode s) = (length (c_str s) < ADDRSTRLEN)"
| "fits_keystr key = True"

fun fits_long :: "pyobj \<Rightarrow> bool" where
  "fits_long (PyLong n) = (- (2 ^ 63) \<le> n \<and> n < 2 ^ 63)"
| "fits_long key = True"

text \<open>
  A run of assignments \<^verbatim>\<open>t[key] = value\<close> and deletions \<^verbatim>\<open>del t[key]\<close>; an operation
  that raises leaves the tree as \<^verbatim>\<open>pytricia.c\<close> leaves it.
\<close>

datatype pyop = Assign pyobj pyobj | Del pyobj

fun run_ops :: "patricia_tree \<Rightarrow> pyop list \<Rightarrow> patricia_tree" where
  "run_ops t [] = t"
| "run_ops t (Assign key val # ops) = run_ops (snd (pytricia_assign_subscript t key (Some val))) ops"
| "run_ops t (Del key # ops) = run_ops (snd (pytricia_internal_delete t key)) ops"

text \<open>
  The distinct (bits, bitlen) pairs inserted and not deleted since, each pair given
  by its key.
\<close>

fun pairs_after :: "bool list set \<Rightarrow> pyop list \<Rightarrow> bool list set" where
  "pairs_after S [] = S"
| "pairs_after S (Assign key val # ops) =
     pairs_after (case key_to_prefix key of None \<Rightarrow> S | Some p \<Rightarrow> insert (key_of p) S) ops"
| "pairs_after S (Del key # ops) =
     pairs_after (case key_to_prefix key of None \<Rightarrow> S | Some p \<Rightarrow> S - {key_of p}) ops"

text \<open>The key of an operation.\<close>

fun op_key :: "pyop \<Rightarrow> pyobj" where
  "op_key (Assign key val) = key"
| "op_key (Del key) = key"

text \<open>
  The greatest number of entries that the stack of the traversal holds, from the state
  \<^verbatim>\<open>Xrn\<close>, stack onwards. The array of \<^verbatim>\<open>pytricia_iter\<close> has room for
  \<^verbatim>\<open>PATRICIA_MAXBITS + 1\<close> entries.
\<close>

function walk_stack_max :: "patricia_node \<Rightarrow> patricia_node list \<Rightarrow> nat" where
  "walk_stack_max Null st = length st"
| "walk_stack_max (Node nb nbl rl v l r) st =
     max (length st)
       (walk_stack_max (fst (walk_advance (Node nb nbl rl v l r) st))
                       (snd (walk_advance (Node nb nbl rl v l r) st)))"
  by pat_completeness auto
termination
  by (relation "measure (\<lambda>(n, st). count_nodes n + sum_list (map count_nodes st))")
     (simp_all only: wf_measure in_measure prod.case walk_advance_less)

text \<open>
  A stack of pending right subtrees, each with the path to it: the paths get shorter
  from the top of the stack downwards, and the topmost is at most \<open>bound\<close> long.
\<close>

fun stack_ok :: "nat \<Rightarrow> nat \<Rightarrow> (bool list \<times> patricia_node) list \<Rightarrow> bool" where
  "stack_ok m bound [] = True"
| "stack_ok m bound ((ctx, x) # st) =
     (trie_inv m ctx x \<and> x \<noteq> Null \<and> 0 < length ctx \<and> length ctx \<le> bound \<and>
      stack_ok m (length ctx - 1) st)"

text \<open>The scenario of three nested prefixes, built through the mapping interface.\<close>

definition scenario_tree :: patricia_tree where
  "scenario_tree =
     run_ops (snd (pytricia_init []))
       [Assign (PyUnicode ''10.0.0.0/8'') (PyUnicode ''A''),
        Assign (PyUnicode ''10.1.0.0/16'') (PyUnicode ''B''),
        Assign (PyUnicode ''10.1.1.0/24'') (PyUnicode ''C'')]"

section \<open>Keys as bit lists\<close>

lemma length_kbits [simp]: "length (kbits a n) = n"
  by (simp add: kbits_def)

lemma nth_kbits [simp]: "i < n \<Longrightarrow> kbits a n ! i = bit_at a i"
  by (simp add: kbits_def)

lemma kbits_Suc: "kbits a (Suc n) = kbits a n @ [bit_at a n]"
  by (simp add: kbits_def)

lemma take_kbits: "take m (kbits a n) = kbits a (min m n)"
  by (rule nth_equalityI) simp_all

lemma kbits_eq_iff: "kbits a n = kbits b n \<longleftrightarrow> (\<forall>i<n. bit_at a i = bit_at b i)"
  by (auto simp: kbits_def)

lemma kbits_eq_mono: "kbits a n = kbits b n \<Longrightarrow> m \<le> n \<Longrightarrow> kbits a m = kbits b m"
  by (simp add: kbits_eq_iff)

lemma prefix_kbits_iff: "prefix (kbits a m) (kbits b n) \<longleftrightarrow> m \<le> n \<and> kbits a m = kbits b m"
proof
  assume p: "prefix (kbits a m) (kbits b n)"
  then obtain zs where zs: "kbits b n = kbits a m @ zs" by (auto simp: prefix_def)
  from p have le: "m \<le> n" using prefix_length_le by fastforce
  have "take m (kbits b n) = kbits a m" unfolding zs by simp
  with le show "m \<le> n \<and> kbits a m = kbits b m" by (simp add: take_kbits min_def)
next
  assume h: "m \<le> n \<and> kbits a m = kbits b m"
  then have "kbits a m = take m (kbits b n)" by (simp add: take_kbits min_def)
  then show "prefix (kbits a m) (kbits b n)" using take_is_prefix [of m "kbits b n"] by simp
qed

lemma prefix_kbits_snoc_iff:
  "prefix (kbits a m @ [d]) (kbits b n) \<longleftrightarrow> m < n \<and> kbits a m = kbits b m \<and> bit_at b m = d"
proof
  assume p: "prefix (kbits a m @ [d]) (kbits b n)"
  then obtain zs where zs: "kbits b n = (kbits a m @ [d]) @ zs" by (auto simp: prefix_def)
  from p have le: "Suc m \<le> n" using prefix_length_le by fastforce
  have "take (Suc m) (kbits b n) = kbits a m @ [d]" unfolding zs by simp
  with le have "kbits b (Suc m) = kbits a m @ [d]" by (simp add: take_kbits min_def)
  with le show "m < n \<and> kbits a m = kbits b m \<and> bit_at b m = d" by (simp add: kbits_Suc)
next
  assume h: "m < n \<and> kbits a m = kbits b m \<and> bit_at b m = d"
  then have "kbits a m @ [d] = take (Suc m) (kbits b n)" by (simp add: take_kbits min_def kbits_Suc)
  then show "prefix (kbits a m @ [d]) (kbits b n)" using take_is_prefix [of "Suc m" "kbits b n"] by simp
qed

lemma differ_bit_le: "differ_bit a b n \<le> n"
  unfolding differ_bit_def using length_takeWhile_le [of "\<lambda>i. bit_at a i = bit_at b i" "[0..<n]"] by simp

lemma differ_bit_agree:
  assumes i: "i < differ_bit a b n"
  shows "bit_at a i = bit_at b i"
proof -
  let ?P = "\<lambda>i. bit_at a i = bit_at b i"
  let ?xs = "[0..<n]"
  have il: "i < length (takeWhile ?P ?xs)" using i by (simp add: differ_bit_def)
  then have "takeWhile ?P ?xs ! i \<in> set (takeWhile ?P ?xs)" by simp
  then have "?P (takeWhile ?P ?xs ! i)" by (rule set_takeWhileD [THEN conjunct2])
  moreover have "takeWhile ?P ?xs ! i = ?xs ! i" using il by (rule takeWhile_nth)
  moreover have "i < n" using i differ_bit_le [of a b n] by simp
  ultimately show ?thesis by simp
qed

lemma differ_bit_kbits: "kbits a (differ_bit a b n) = kbits b (differ_bit a b n)"
  by (simp add: kbits_eq_iff differ_bit_agree)

lemma differ_bit_differ:
  assumes l: "differ_bit a b n < n"
  shows "bit_at a (differ_bit a b n) \<noteq> bit_at b (differ_bit a b n)"
proof -
  let ?P = "\<lambda>i. bit_at a i = bit_at b i"
  have "\<not> ?P ([0..<n] ! length (takeWhile ?P [0..<n]))"
    by (rule nth_length_takeWhile) (use l in \<open>simp add: differ_bit_def\<close>)
  with l show ?thesis by (simp add: differ_bit_def)
qed

lemma differ_bit_eq: "kbits a n = kbits b n \<Longrightarrow> differ_bit a b n = n"
  using differ_bit_differ [of a b n] differ_bit_le [of a b n] by (auto simp: kbits_eq_iff le_less)

section \<open>The invariant and exact search\<close>

lemma trie_inv_mono: "trie_inv m ctx n \<Longrightarrow> prefix ctx' ctx \<Longrightarrow> trie_inv m ctx' n"
  by (cases n) (auto intro: prefix_order.trans)

lemma trie_inv_child_ctx:
  "trie_inv m ctx (Node nb nbl rl v l r) \<Longrightarrow> prefix ctx (kbits nb nbl @ [d])"
  by (auto intro: prefix_order.trans)

lemma real_prefixes_ctx:
  "trie_inv m ctx n \<Longrightarrow> p \<in> set (real_prefixes n) \<Longrightarrow> prefix ctx (key_of p) \<and> bitlen p \<le> m"
proof (induction n arbitrary: ctx)
  case Null
  then show ?case by simp
next
  case (Node nb nbl rl v l r)
  from Node.prems(2) consider
    (self) "p = \<lparr>add_sin = nb, bitlen = nbl\<rparr>" | (left) "p \<in> set (real_prefixes l)" | (right) "p \<in> set (real_prefixes r)"
    by (auto split: if_splits)
  then show ?case
  proof cases
    case self
    with Node.prems(1) show ?thesis by (simp add: key_of_def)
  next
    case left
    with Node.IH(1) [of "kbits nb nbl @ [False]"] Node.prems(1)
    have a: "prefix (kbits nb nbl @ [False]) (key_of p)" and b: "bitlen p \<le> m" by simp_all
    have c: "prefix ctx (kbits nb nbl @ [False])" using Node.prems(1) by (rule trie_inv_child_ctx)
    from prefix_order.trans [OF c a] b show ?thesis by simp
  next
    case right
    with Node.IH(2) [of "kbits nb nbl @ [True]"] Node.prems(1)
    have a: "prefix (kbits nb nbl @ [True]) (key_of p)" and b: "bitlen p \<le> m" by simp_all
    have c: "prefix ctx (kbits nb nbl @ [True])" using Node.prems(1) by (rule trie_inv_child_ctx)
    from prefix_order.trans [OF c a] b show ?thesis by simp
  qed
qed

lemma key_of_simp [simp]: "key_of \<lparr>add_sin = a, bitlen = n\<rparr> = kbits a n"
  by (simp add: key_of_def)

lemma length_key_of [simp]: "length (key_of p) = bitlen p"
  by (simp add: key_of_def)

lemma search_exact_sound:
  "search_exact n a bl = Some h \<Longrightarrow>
   \<exists>nb v l r. node_at n h = Node nb bl True v l r \<and> kbits nb bl = kbits a bl"
  by (induction n arbitrary: h) (auto split: if_splits simp: comp_with_mask_def)

lemma node_at_real_prefixes:
  "node_at n h = Node nb nbl True v l r \<Longrightarrow> \<lparr>add_sin = nb, bitlen = nbl\<rparr> \<in> set (real_prefixes n)"
  by (induction n h rule: node_at.induct) (auto split: if_splits)

lemma search_exact_complete:
  "trie_inv m ctx n \<Longrightarrow> p \<in> set (real_prefixes n) \<Longrightarrow> key_of p = kbits a bl \<Longrightarrow>
   \<exists>h. search_exact n a bl = Some h"
proof (induction n arbitrary: ctx)
  case Null
  then show ?case by simp
next
  case (Node nb nbl rl v l r)
  have bl: "bitlen p = bl" using Node.prems(3) by (metis length_key_of length_kbits)
  from Node.prems(2) consider
    (self) "rl" "p = \<lparr>add_sin = nb, bitlen = nbl\<rparr>" | (left) "p \<in> set (real_prefixes l)" | (right) "p \<in> set (real_prefixes r)"
    by (auto split: if_splits)
  then show ?case
  proof cases
    case self
    with Node.prems(3) bl show ?thesis by (simp add: comp_with_mask_def)
  next
    case left
    from Node.prems(1) have il: "trie_inv m (kbits nb nbl @ [False]) l" by simp
    from real_prefixes_ctx [OF il left] Node.prems(3)
    have "nbl < bl \<and> \<not> bit_at a nbl" by (simp add: prefix_kbits_snoc_iff)
    moreover from Node.IH(1) [OF il left Node.prems(3)] obtain h where "search_exact l a bl = Some h" ..
    ultimately show ?thesis by simp
  next
    case right
    from Node.prems(1) have ir: "trie_inv m (kbits nb nbl @ [True]) r" by simp
    from real_prefixes_ctx [OF ir right] Node.prems(3)
    have "nbl < bl \<and> bit_at a nbl" by (simp add: prefix_kbits_snoc_iff)
    moreover from Node.IH(2) [OF ir right Node.prems(3)] obtain h where "search_exact r a bl = Some h" ..
    ultimately show ?thesis by simp
  qed
qed

lemma real_keys_simps [simp]:
  "real_keys Null = []"
  "real_keys (Node nb nbl rl v l r) = (if rl then [kbits nb nbl] else []) @ real_keys l @ real_keys r"
  by (simp_all add: real_keys_def)

lemma real_keys_ctx: "trie_inv m ctx n \<Longrightarrow> k \<in> set (real_keys n) \<Longrightarrow> prefix ctx k \<and> length k \<le> m"
  using real_prefixes_ctx by (fastforce simp: real_keys_def)

lemma distinct_real_keys: "trie_inv m ctx n \<Longrightarrow> distinct (real_keys n)"
proof (induction n arbitrary: ctx)
  case Null
  then show ?case by simp
next
  case (Node nb nbl rl v l r)
  let ?K = "kbits nb nbl"
  from Node.prems have il: "trie_inv m (?K @ [False]) l" and ir: "trie_inv m (?K @ [True]) r" by simp_all
  have dl: "distinct (real_keys l)" and dr: "distinct (real_keys r)"
    using Node.IH(1) [OF il] Node.IH(2) [OF ir] by simp_all
  have nl: "?K \<notin> set (real_keys l)"
  proof
    assume "?K \<in> set (real_keys l)"
    from real_keys_ctx [OF il this] have "length (?K @ [False]) \<le> length ?K" by (metis prefix_length_le)
    then show False by simp
  qed
  have nr: "?K \<notin> set (real_keys r)"
  proof
    assume "?K \<in> set (real_keys r)"
    from real_keys_ctx [OF ir this] have "length (?K @ [True]) \<le> length ?K" by (metis prefix_length_le)
    then show False by simp
  qed
  have disj: "set (real_keys l) \<inter> set (real_keys r) = {}"
  proof (rule ccontr)
    assume "set (real_keys l) \<inter> set (real_keys r) \<noteq> {}"
    then obtain k where kl: "k \<in> set (real_keys l)" and kr: "k \<in> set (real_keys r)" by auto
    from real_keys_ctx [OF il kl] real_keys_ctx [OF ir kr]
    have "prefix (?K @ [False]) k" "prefix (?K @ [True]) k" by simp_all
    then obtain z1 z2 where "k = (?K @ [False]) @ z1" "k = (?K @ [True]) @ z2" by (auto simp: prefix_def)
    then show False by simp
  qed
  from dl dr nl nr disj show ?case by simp
qed

section \<open>Best-match search\<close>




section \<open>Insertion\<close>

lemma reached_prefix:
  "trie_inv m ctx n \<Longrightarrow> n \<noteq> Null \<Longrightarrow> reached n a bl = (ra, rbl) \<Longrightarrow> prefix ctx (kbits ra rbl)"
proof (induction n arbitrary: ctx)
  case Null
  then show ?case by simp
next
  case (Node nb nbl rl v l r)
  let ?K = "kbits nb nbl"
  from Node.prems(1) have il: "trie_inv m (?K @ [False]) l" and ir: "trie_inv m (?K @ [True]) r"
    and pc: "prefix ctx ?K" by simp_all
  have pcd: "prefix ctx (?K @ [d])" for d using pc by (auto intro: prefix_order.trans)
  consider (self) "(ra, rbl) = (nb, nbl)"
    | (left) "l \<noteq> Null" "reached l a bl = (ra, rbl)"
    | (right) "r \<noteq> Null" "reached r a bl = (ra, rbl)"
    using Node.prems(3) by (auto split: if_splits)
  then show ?case
  proof cases
    case self
    with pc show ?thesis by simp
  next
    case left
    from Node.IH(1) [OF il left] pcd [of False] show ?thesis by (rule prefix_order.trans [rotated])
  next
    case right
    from Node.IH(2) [OF ir right] pcd [of True] show ?thesis by (rule prefix_order.trans [rotated])
  qed
qed

lemma reached_root:
  assumes "trie_inv m ctx (Node nb nbl rl v l r)" "reached (Node nb nbl rl v l r) a bl = (ra, rbl)"
  shows "nbl \<le> rbl \<and> kbits ra nbl = kbits nb nbl"
proof -
  have "trie_inv m (kbits nb nbl) (Node nb nbl rl v l r)" using assms(1) by simp
  from reached_prefix [OF this _ assms(2)] have "prefix (kbits nb nbl) (kbits ra rbl)" by simp
  then show ?thesis by (simp add: prefix_kbits_iff)
qed

lemma splice_correct:
  assumes "trie_inv m ctx n" "n \<noteq> Null" "bl \<le> m" "reached n a bl = (ra, rbl)"
    "d = differ_bit a ra (min rbl bl)" "prefix ctx (kbits a d)"
  shows "trie_inv m ctx (fst (splice_node n a bl d ra)) \<and>
         set (real_keys (fst (splice_node n a bl d ra))) = insert (kbits a bl) (set (real_keys n))"
  using assms
proof (induction n arbitrary: ctx)
  case Null
  then show ?case by simp
next
  case (Node nb nbl rl v l r)
  let ?K = "kbits nb nbl"
  let ?N = "Node nb nbl rl v l r"
  note inv = Node.prems(1) and blm = Node.prems(3) and re = Node.prems(4) and dd = Node.prems(5)
    and pc = Node.prems(6)
  from inv have il: "trie_inv m (?K @ [False]) l" and ir: "trie_inv m (?K @ [True]) r"
    and nm: "nbl \<le> m" and pk: "prefix ctx ?K" by simp_all
  from reached_root [OF inv re] have rle: "nbl \<le> rbl" and rk: "kbits ra nbl = ?K" by simp_all
  have dle: "d \<le> rbl" "d \<le> bl" using differ_bit_le [of a ra "min rbl bl"] dd by simp_all
  have dk: "kbits a d = kbits ra d" unfolding dd by (rule differ_bit_kbits)
  have ddiff: "d < rbl \<Longrightarrow> d < bl \<Longrightarrow> bit_at a d \<noteq> bit_at ra d"
    unfolding dd by (rule differ_bit_differ) (simp add: dd [symmetric])
  show ?case
  proof (cases "nbl < d")
    case True
    then have nbl_bl: "nbl < bl" using dle by simp
    let ?b = "bit_at a nbl"
    let ?c = "if ?b then r else l"
    have ak: "kbits a nbl = ?K" using kbits_eq_mono [OF dk, of nbl] True rk by simp
    have cn: "?c \<noteq> Null"
    proof
      assume "?c = Null"
      with re nbl_bl have "rbl = nbl" by (auto split: if_splits)
      with True dle show False by simp
    qed
    have rc: "reached ?c a bl = (ra, rbl)" using re nbl_bl cn by (auto split: if_splits)
    have ic: "trie_inv m (?K @ [?b]) ?c" using il ir by simp
    have pc': "prefix (?K @ [?b]) (kbits a d)" using True ak by (simp add: prefix_kbits_snoc_iff)
    have IH: "trie_inv m (?K @ [?b]) (fst (splice_node ?c a bl d ra)) \<and>
         set (real_keys (fst (splice_node ?c a bl d ra))) = insert (kbits a bl) (set (real_keys ?c))"
    proof (cases ?b)
      case True
      with Node.IH(2) [OF _ _ blm _ dd, of "?K @ [True]"] ic cn rc pc' show ?thesis by simp
    next
      case False
      with Node.IH(1) [OF _ _ blm _ dd, of "?K @ [False]"] ic cn rc pc' show ?thesis by simp
    qed
    show ?thesis
    proof (cases ?b)
      case b: True
      then have sp: "fst (splice_node ?N a bl d ra) = Node nb nbl rl v l (fst (splice_node r a bl d ra))"
        using True by (simp split: prod.splits)
      from IH b have i1: "trie_inv m (?K @ [True]) (fst (splice_node r a bl d ra))"
        and i2: "set (real_keys (fst (splice_node r a bl d ra))) = insert (kbits a bl) (set (real_keys r))"
        by simp_all
      show ?thesis unfolding sp by (simp add: i1 i2 il nm pk)
    next
      case b: False
      then have sp: "fst (splice_node ?N a bl d ra) = Node nb nbl rl v (fst (splice_node l a bl d ra)) r"
        using True by (simp split: prod.splits)
      from IH b have i1: "trie_inv m (?K @ [False]) (fst (splice_node l a bl d ra))"
        and i2: "set (real_keys (fst (splice_node l a bl d ra))) = insert (kbits a bl) (set (real_keys l))"
        by simp_all
      show ?thesis unfolding sp by (simp add: i1 i2 ir nm pk)
    qed
  next
    case nd: False
    show ?thesis
    proof (cases "d = bl \<and> nbl = bl")
      case True
      with re have "ra = nb" by simp
      with dk True have ak: "kbits a bl = ?K" by simp
      have sp: "fst (splice_node ?N a bl d ra) = (if rl then ?N else Node a bl True v l r)"
        using True nd by simp
      have "prefix ctx (kbits a bl)" using pk ak by simp
      then show ?thesis unfolding sp using True il ir nm pk ak by simp
    next
      case nf: False
      show ?thesis
      proof (cases "nbl = d")
        case True
        with nf dle have nbl_bl: "nbl < bl" by simp
        let ?b = "bit_at a nbl"
        let ?c = "if ?b then r else l"
        have ic: "trie_inv m (?K @ [?b]) ?c" using il ir by simp
        have cn: "?c = Null"
        proof (rule ccontr)
          assume cn: "?c \<noteq> Null"
          then have rc: "reached ?c a bl = (ra, rbl)" using re nbl_bl by (auto split: if_splits)
          from reached_prefix [OF ic cn rc] have "nbl < rbl" "bit_at ra nbl = ?b"
            by (simp_all add: prefix_kbits_snoc_iff)
          with ddiff True nbl_bl show False by simp
        qed
        have ak: "kbits a nbl = ?K" using dk True rk by simp
        have pl: "prefix (?K @ [?b]) (kbits a bl)" using nbl_bl ak by (simp add: prefix_kbits_snoc_iff)
        have sp: "fst (splice_node ?N a bl d ra) =
            (if ?b then Node nb nbl rl v l (leaf a bl) else Node nb nbl rl v (leaf a bl) r)"
          using True nf nd by simp
        show ?thesis
        proof (cases ?b)
          case b: True
          with cn have "r = Null" by simp
          with b pl show ?thesis unfolding sp by (simp add: leaf_def il nm pk blm)
        next
          case b: False
          with cn have "l = Null" by simp
          with b pl show ?thesis unfolding sp by (simp add: leaf_def ir nm pk blm)
        qed
      next
        case ne: False
        with nd have dn: "d < nbl" by simp
        have ad: "kbits a d = kbits nb d" using dk kbits_eq_mono [OF rk, of d] dn by simp
        have bd: "bit_at nb d = bit_at ra d" using rk dn by (simp add: kbits_eq_iff)
        show ?thesis
        proof (cases "bl = d")
          case True
          have pn: "prefix (kbits a bl @ [bit_at ra bl]) ?K"
            using True dn ad bd by (simp add: prefix_kbits_snoc_iff)
          have sp: "fst (splice_node ?N a bl d ra) =
              (if bit_at ra bl then Node a bl True None Null ?N else Node a bl True None ?N Null)"
            using True nd nf ne by simp
          have pa: "prefix ctx (kbits a bl)" using pc True by simp
          show ?thesis
          proof (cases "bit_at ra bl")
            case b: True
            with pn show ?thesis unfolding sp by (simp add: il ir nm pa blm)
          next
            case b: False
            with pn show ?thesis unfolding sp by (simp add: il ir nm pa blm)
          qed
        next
          case False
          with dle have dbl: "d < bl" by simp
          from ddiff dn rle dbl have "bit_at a d \<noteq> bit_at ra d" by simp
          with bd have nbd: "bit_at nb d = (\<not> bit_at a d)" by simp
          have p1: "prefix (kbits a d @ [\<not> bit_at a d]) ?K"
            using dn ad nbd by (simp add: prefix_kbits_snoc_iff)
          have p2: "prefix (kbits a d @ [bit_at a d]) (kbits a bl)"
            using dbl by (simp add: prefix_kbits_snoc_iff)
          have dm: "d \<le> m" using dbl blm by simp
          have sp: "fst (splice_node ?N a bl d ra) =
              (if bit_at a d then Node a d False None ?N (leaf a bl) else Node a d False None (leaf a bl) ?N)"
            using False nd nf ne by simp
          show ?thesis
          proof (cases "bit_at a d")
            case b: True
            with p1 p2 show ?thesis unfolding sp by (simp add: leaf_def il ir nm pc blm dm)
          next
            case b: False
            with p1 p2 show ?thesis unfolding sp by (simp add: leaf_def il ir nm pc blm dm)
          qed
        qed
      qed
    qed
  qed
qed

section \<open>Removal\<close>

lemma splice_length:
  assumes "trie_inv m ctx n" "n \<noteq> Null" "reached n a bl = (ra, rbl)"
    "d = differ_bit a ra (min rbl bl)"
  shows "length (real_keys (fst (splice_node n a bl d ra))) =
         length (real_keys n) + (if snd (snd (splice_node n a bl d ra)) then 1 else 0)"
  using assms
proof (induction n arbitrary: ctx)
  case Null
  then show ?case by simp
next
  case (Node nb nbl rl v l r)
  let ?K = "kbits nb nbl"
  let ?N = "Node nb nbl rl v l r"
  note inv = Node.prems(1) and re = Node.prems(3) and dd = Node.prems(4)
  from inv have il: "trie_inv m (?K @ [False]) l" and ir: "trie_inv m (?K @ [True]) r" by simp_all
  have dle: "d \<le> rbl" "d \<le> bl" using differ_bit_le [of a ra "min rbl bl"] dd by simp_all
  have ddiff: "d < rbl \<Longrightarrow> d < bl \<Longrightarrow> bit_at a d \<noteq> bit_at ra d"
    unfolding dd by (rule differ_bit_differ) (simp add: dd [symmetric])
  let ?b = "bit_at a nbl"
  let ?c = "if ?b then r else l"
  have ic: "trie_inv m (?K @ [?b]) ?c" using il ir by simp
  show ?case
  proof (cases "nbl < d")
    case True
    then have nbl_bl: "nbl < bl" using dle by simp
    have cn: "?c \<noteq> Null"
    proof
      assume "?c = Null"
      with re nbl_bl have "rbl = nbl" by (auto split: if_splits)
      with True dle show False by simp
    qed
    have rc: "reached ?c a bl = (ra, rbl)" using re nbl_bl cn by (auto split: if_splits)
    show ?thesis
    proof (cases ?b)
      case b: True
      with Node.IH(2) [OF _ _ _ dd, of "?K @ [True]"] ic cn rc
      have "length (real_keys (fst (splice_node r a bl d ra))) =
         length (real_keys r) + (if snd (snd (splice_node r a bl d ra)) then 1 else 0)" by simp
      with True b show ?thesis by (auto split: prod.splits)
    next
      case b: False
      with Node.IH(1) [OF _ _ _ dd, of "?K @ [False]"] ic cn rc
      have "length (real_keys (fst (splice_node l a bl d ra))) =
         length (real_keys l) + (if snd (snd (splice_node l a bl d ra)) then 1 else 0)" by simp
      with True b show ?thesis by (auto split: prod.splits)
    qed
  next
    case nd: False
    show ?thesis
    proof (cases "nbl = d \<and> d < bl")
      case True
      have cn: "?c = Null"
      proof (rule ccontr)
        assume cn: "?c \<noteq> Null"
        then have rc: "reached ?c a bl = (ra, rbl)" using re True by (auto split: if_splits)
        from reached_prefix [OF ic cn rc] have "nbl < rbl" "bit_at ra nbl = ?b"
          by (simp_all add: prefix_kbits_snoc_iff)
        with ddiff True show False by simp
      qed
      show ?thesis
      proof (cases ?b)
        case b: True
        with cn have "r = Null" by simp
        with True b show ?thesis by (simp add: leaf_def)
      next
        case b: False
        with cn have "l = Null" by simp
        with True b show ?thesis by (simp add: leaf_def)
      qed
    next
      case False
      with nd dle(2) show ?thesis by (auto simp: leaf_def)
    qed
  qed
qed

lemma collapse_inv: "trie_inv m ctx n \<Longrightarrow> trie_inv m ctx (collapse n)"
proof (cases n)
  case Null
  then show ?thesis by simp
next
  case (Node nb nbl rl v l r)
  assume inv: "trie_inv m ctx n"
  with Node have "trie_inv m ctx l" "trie_inv m ctx r"
    using trie_inv_mono [of m "kbits nb nbl @ [False]" l ctx] trie_inv_mono [of m "kbits nb nbl @ [True]" r ctx]
      trie_inv_child_ctx [of m ctx nb nbl rl v l r] by simp_all
  with inv Node show ?thesis by simp
qed

lemma collapse_keys [simp]: "real_keys (collapse n) = real_keys n"
  by (cases n) auto

lemma remove_at_inv: "trie_inv m ctx n \<Longrightarrow> trie_inv m ctx (remove_at h n)"
proof (induction h n arbitrary: ctx rule: remove_at.induct)
  case (1 h)
  then show ?case by simp
next
  case (2 nb nbl rl v l r)
  then have "trie_inv m ctx l" "trie_inv m ctx r"
    using trie_inv_mono [of m "kbits nb nbl @ [False]" l ctx] trie_inv_mono [of m "kbits nb nbl @ [True]" r ctx]
      trie_inv_child_ctx [of m ctx nb nbl rl v l r] by simp_all
  with 2 show ?case by simp
next
  case (3 h nb nbl rl v l r)
  from "3.prems" have ir: "trie_inv m (kbits nb nbl @ [True]) r" by simp
  have a: "trie_inv m ctx (Node nb nbl rl v l (remove_at h r))"
    using "3.prems" "3.IH" [OF ir] by simp
  show ?case
  proof (cases "remove_at h r = Null")
    case True
    with a have "trie_inv m ctx (Node nb nbl rl v l Null)" by simp
    from collapse_inv [OF this] True show ?thesis by (simp add: Let_def)
  next
    case False
    with a show ?thesis by (simp add: Let_def)
  qed
next
  case (4 h nb nbl rl v l r)
  from "4.prems" have il: "trie_inv m (kbits nb nbl @ [False]) l" by simp
  have a: "trie_inv m ctx (Node nb nbl rl v (remove_at h l) r)"
    using "4.prems" "4.IH" [OF il] by simp
  show ?case
  proof (cases "remove_at h l = Null")
    case True
    with a have "trie_inv m ctx (Node nb nbl rl v Null r)" by simp
    from collapse_inv [OF this] True show ?thesis by (simp add: Let_def)
  next
    case False
    with a show ?thesis by (simp add: Let_def)
  qed
qed

lemma node_at_real_keys:
  "node_at n h = Node kb kbl True v l r \<Longrightarrow> kbits kb kbl \<in> set (real_keys n)"
  using node_at_real_prefixes [of n h kb kbl v l r] by (force simp: real_keys_def)

lemma remove_at_keys:
  "trie_inv m ctx n \<Longrightarrow> node_at n h = Node kb kbl True kv kl kr \<Longrightarrow>
   set (real_keys (remove_at h n)) = set (real_keys n) - {kbits kb kbl}"
proof (induction h n arbitrary: ctx rule: remove_at.induct)
  case (1 h)
  then show ?case by (cases h) simp_all
next
  case (2 nb nbl rl v l r)
  from distinct_real_keys [OF "2.prems"(1)] "2.prems"(2) show ?case by auto
next
  case (3 h nb nbl rl v l r)
  let ?K = "kbits kb kbl"
  from "3.prems" have ir: "trie_inv m (kbits nb nbl @ [True]) r"
    and nr: "node_at r h = Node kb kbl True kv kl kr" by simp_all
  from "3.IH" [OF ir nr] have IH: "set (real_keys (remove_at h r)) = set (real_keys r) - {?K}" .
  have kr: "?K \<in> set (real_keys r)" using nr by (rule node_at_real_keys)
  have d: "distinct ((if rl then [kbits nb nbl] else []) @ real_keys l @ real_keys r)"
    using distinct_real_keys [OF "3.prems"(1)] by simp
  have out: "?K \<notin> set ((if rl then [kbits nb nbl] else []) @ real_keys l)"
    using d kr by (auto split: if_splits)
  have "set (real_keys (remove_at (True # h) (Node nb nbl rl v l r))) =
        set ((if rl then [kbits nb nbl] else []) @ real_keys l) \<union> set (real_keys (remove_at h r))"
    by (cases "remove_at h r = Null") (auto simp: Let_def simp del: collapse.simps)
  also have "\<dots> = set ((if rl then [kbits nb nbl] else []) @ real_keys l) \<union> (set (real_keys r) - {?K})"
    by (simp only: IH)
  also have "\<dots> = set (real_keys (Node nb nbl rl v l r)) - {?K}"
    using out by auto
  finally show ?case .
next
  case (4 h nb nbl rl v l r)
  let ?K = "kbits kb kbl"
  from "4.prems" have il: "trie_inv m (kbits nb nbl @ [False]) l"
    and nl: "node_at l h = Node kb kbl True kv kl kr" by simp_all
  from "4.IH" [OF il nl] have IH: "set (real_keys (remove_at h l)) = set (real_keys l) - {?K}" .
  have kl: "?K \<in> set (real_keys l)" using nl by (rule node_at_real_keys)
  have d: "distinct ((if rl then [kbits nb nbl] else []) @ real_keys l @ real_keys r)"
    using distinct_real_keys [OF "4.prems"(1)] by simp
  have out: "?K \<notin> set ((if rl then [kbits nb nbl] else []) @ real_keys r)"
    using d kl by (auto split: if_splits)
  have "set (real_keys (remove_at (False # h) (Node nb nbl rl v l r))) =
        set ((if rl then [kbits nb nbl] else []) @ real_keys r) \<union> set (real_keys (remove_at h l))"
    by (cases "remove_at h l = Null") (auto simp: Let_def simp del: collapse.simps)
  also have "\<dots> = set ((if rl then [kbits nb nbl] else []) @ real_keys r) \<union> (set (real_keys l) - {?K})"
    by (simp only: IH)
  also have "\<dots> = set (real_keys (Node nb nbl rl v l r)) - {?K}"
    using out by auto
  finally show ?case .
qed

lemma remove_at_length:
  "node_at n h = Node kb kbl True kv kl kr \<Longrightarrow>
   Suc (length (real_keys (remove_at h n))) = length (real_keys n)"
proof (induction h n rule: remove_at.induct)
  case (1 h)
  then show ?case by (cases h) simp_all
next
  case (2 nb nbl rl v l r)
  then show ?case by auto
next
  case (3 h nb nbl rl v l r)
  then have "Suc (length (real_keys (remove_at h r))) = length (real_keys r)" by simp
  then show ?case by (cases "remove_at h r = Null") (simp_all add: Let_def del: collapse.simps)
next
  case (4 h nb nbl rl v l r)
  then have "Suc (length (real_keys (remove_at h l))) = length (real_keys l)" by simp
  then show ?case by (cases "remove_at h l = Null") (simp_all add: Let_def del: collapse.simps)
qed

lemma set_data_inv [simp]: "trie_inv m ctx (set_data h x n) = trie_inv m ctx n"
  by (induction h x n arbitrary: ctx rule: set_data.induct) simp_all

lemma set_data_prefixes [simp]: "real_prefixes (set_data h x n) = real_prefixes n"
  by (induction h x n rule: set_data.induct) simp_all

lemma set_data_keys [simp]: "real_keys (set_data h x n) = real_keys n"
  by (simp add: real_keys_def)

section \<open>Traversal\<close>

lemma real_nodes_not_Null: "x \<in> set (real_nodes n) \<Longrightarrow> \<exists>nb nbl v l r. x = Node nb nbl True v l r"
  by (induction n) (auto split: if_splits)

lemma map_prefix_real_nodes: "map node_prefix (real_nodes n) = map Some (real_prefixes n)"
  by (induction n) auto

lemma length_real_nodes: "length (real_nodes n) = length (real_keys n)"
  by (induction n) auto

lemma length_real_prefixes: "length (real_prefixes n) = length (real_keys n)"
  by (simp add: real_keys_def)

lemma patricia_walk_eq:
  "(n = Null \<longrightarrow> st = []) \<Longrightarrow> Null \<notin> set st \<Longrightarrow>
   patricia_walk n st = real_nodes n @ concat (map real_nodes st)"
proof (induction n st rule: patricia_walk.induct)
  case (1 st)
  then show ?case by simp
next
  case (2 nb nbl rl v l r st)
  let ?N = "Node nb nbl rl v l r"
  let ?n' = "fst (walk_advance ?N st)"
  let ?st' = "snd (walk_advance ?N st)"
  have a: "?n' = Null \<longrightarrow> ?st' = []" using "2.prems"(2) by (cases st) auto
  have b: "Null \<notin> set ?st'" using "2.prems"(2) by (cases st) auto
  have c: "real_nodes ?n' @ concat (map real_nodes ?st') =
           real_nodes l @ real_nodes r @ concat (map real_nodes st)"
    by (cases l; cases r; cases st) simp_all
  from "2.IH" [OF a b] c show ?case by simp
qed

lemma pytricia_length_eq: "pytricia_length t = length (real_keys (head t))"
proof -
  have "foldl (\<lambda>count node. count + 1) c xs = c + length xs" for c :: nat and xs :: "patricia_node list"
    by (induction xs arbitrary: c) simp_all
  then show ?thesis
    by (simp add: pytricia_length_def PATRICIA_WALK_def patricia_walk_eq length_real_nodes)
qed

lemma next_loop_eq:
  "(n = Null \<longrightarrow> st = []) \<Longrightarrow> Null \<notin> set st \<Longrightarrow>
   (case next_loop n st of (x, n', st') \<Rightarrow>
      (n' = Null \<longrightarrow> st' = []) \<and> Null \<notin> set st' \<and>
      (case real_nodes n @ concat (map real_nodes st) of
         [] \<Rightarrow> x = Null \<and> n' = Null
       | y # ys \<Rightarrow> x = y \<and> real_nodes n' @ concat (map real_nodes st') = ys))"
proof (induction n st rule: next_loop.induct)
  case (1 st)
  then show ?case by simp
next
  case (2 nb nbl rl v l r st)
  let ?N = "Node nb nbl rl v l r"
  let ?n' = "fst (walk_advance ?N st)"
  let ?st' = "snd (walk_advance ?N st)"
  have a: "?n' = Null \<longrightarrow> ?st' = []" using "2.prems"(2) by (cases st) auto
  have b: "Null \<notin> set ?st'" using "2.prems"(2) by (cases st) auto
  have c: "real_nodes ?n' @ concat (map real_nodes ?st') =
           real_nodes l @ real_nodes r @ concat (map real_nodes st)"
    by (cases l; cases r; cases st) simp_all
  show ?case
  proof (cases rl)
    case True
    with a b c show ?thesis by (simp add: case_prod_beta del: walk_advance.simps)
  next
    case False
    with "2.IH" [OF False a b] c show ?thesis by (simp add: case_prod_beta del: walk_advance.simps)
  qed
qed

lemma search_exact_reached:
  "search_exact n a bl = Some h \<Longrightarrow> \<exists>ra. reached n a bl = (ra, bl) \<and> kbits ra bl = kbits a bl"
proof (induction n arbitrary: h)
  case Null
  then show ?case by simp
next
  case (Node nb nbl rl v l r)
  show ?case
  proof (cases "nbl < bl")
    case True
    show ?thesis
    proof (cases "bit_at a nbl")
      case b: True
      with True Node.prems obtain h' where h': "search_exact r a bl = Some h'" by auto
      then have "r \<noteq> Null" by auto
      with Node.IH(2) [OF h'] True b show ?thesis by simp
    next
      case b: False
      with True Node.prems obtain h' where h': "search_exact l a bl = Some h'" by auto
      then have "l \<noteq> Null" by auto
      with Node.IH(1) [OF h'] True b show ?thesis by simp
    qed
  next
    case False
    with Node.prems show ?thesis by (auto simp: comp_with_mask_def split: if_splits)
  qed
qed

lemma splice_found:
  "search_exact n a bl = Some h \<Longrightarrow> splice_node n a bl bl ra = (n, h, False)"
proof (induction n arbitrary: h)
  case Null
  then show ?case by simp
next
  case (Node nb nbl rl v l r)
  show ?case
  proof (cases "nbl < bl")
    case True
    show ?thesis
    proof (cases "bit_at a nbl")
      case b: True
      with True Node.prems obtain h' where h': "search_exact r a bl = Some h'" "h = True # h'" by auto
      with Node.IH(2) [OF h'(1)] True b show ?thesis by simp
    next
      case b: False
      with True Node.prems obtain h' where h': "search_exact l a bl = Some h'" "h = False # h'" by auto
      with Node.IH(1) [OF h'(1)] True b show ?thesis by simp
    qed
  next
    case False
    with Node.prems show ?thesis by (auto split: if_splits)
  qed
qed

lemma patricia_lookup_found:
  assumes "patricia_search_exact t p = Some h"
  shows "patricia_lookup t p = (t, h)"
proof -
  from assms have se: "search_exact (head t) (add_sin p) (bitlen p) = Some h"
    by (simp add: patricia_search_exact_def)
  from search_exact_reached [OF se] obtain ra where
    ra: "reached (head t) (add_sin p) (bitlen p) = (ra, bitlen p)" "kbits ra (bitlen p) = kbits (add_sin p) (bitlen p)"
    by blast
  have "differ_bit (add_sin p) ra (bitlen p) = bitlen p" using ra(2) by (simp add: differ_bit_eq)
  with ra(1) splice_found [OF se, of ra] show ?thesis
    by (simp add: patricia_lookup_def)
qed

lemma kbits_neq: "m \<noteq> n \<Longrightarrow> kbits a m \<noteq> kbits b n"
  by (metis length_kbits)

section \<open>Evaluation rules\<close>

lemmas codec_ev =
  inet_aton_def inet_aton_word_def strtoul0_def isdigit_def isspace_def is_digit_of_def
  digit_val_def digits_value_def inet_aton_max_def atoi_def pystr_to_prefix_def parse_cidr_def
  make_prefix_def strchr_slash_def ADDRSTRLEN_def c_str_def inet_ntop_with_prefix_def
  inet_ntop_def addr_byte_def utoa_byte_def digit_char_def htonl_def PyLong_AsLong_def
  key_to_prefix_def keystr_cstr_def key_pending_def

lemmas fits_ev = c_str_def ADDRSTRLEN_def

lemma upt_numeral_bound:
  "[m..<numeral n] = (if m < numeral n then m # [Suc m..<numeral n] else [])"
  by (rule upt_rec)

lemma kbits_0: "kbits a 0 = []"
  by (simp add: kbits_def)

lemma kbits_numeral:
  "kbits a (numeral n) = kbits a (pred_numeral n) @ [bit_at a (pred_numeral n)]"
  by (simp add: numeral_eq_Suc kbits_Suc)

lemmas engine_ev =
  bit_at_def kbits_0 kbits_Suc kbits_numeral comp_with_mask_def differ_bit_def leaf_def patricia_lookup_def
  make_and_lookup_def patricia_remove_def patricia_search_exact_def patricia_search_best_def
  upt_numeral_bound New_Patricia_def PATRICIA_MAXBITS_def

lemmas facade_ev =
  pytricia_init_def pytricia_subscript_def pytricia_internal_delete_def
  pytricia_assign_subscript_def get_body_def pytricia_contains_def pytricia_length_def
  PATRICIA_WALK_def pytricia_iter_def pytriciaiter_next_def

section \<open>The codec on keys without a length\<close>

lemma digit_cases: "d < 10 \<Longrightarrow> d \<in> {0, 1, 2, 3, 4, 5, 6, 7, 8, 9::nat}"
  by auto

lemma digit_char_props:
  assumes "d < 10"
  shows "digit_val (digit_char d) = Some d" "isdigit (digit_char d)"
    "digit_char d \<noteq> CHR ''.''" "digit_char d \<noteq> CHR ''/''"
    "digit_char d \<noteq> CHR ''x''" "digit_char d \<noteq> CHR ''X''"
    "(digit_char d = CHR ''0'') = (d = 0)"
  using digit_cases [OF assms]
  by (auto simp: digit_char_def digit_val_def isdigit_def)
lemma bytes_sum:
  assumes "x < 4294967296"
  shows "(x div 16777216 mod 256) * 16777216 + (x div 65536 mod 256) * 65536 +
   (x div 256 mod 256) * 256 + x mod 256 = (x::nat)"
proof -
  define x1 where "x1 = x div 256"
  define x2 where "x2 = x1 div 256"
  define x3 where "x3 = x2 div 256"
  define b3 where "b3 = x mod 256"
  define b2 where "b2 = x1 mod 256"
  define b1 where "b1 = x2 mod 256"
  have c: "x = x1 * 256 + b3" by (simp add: x1_def b3_def)
  have d: "x1 = x2 * 256 + b2" by (simp add: x2_def b2_def)
  have e: "x2 = x3 * 256 + b1" by (simp add: x3_def b1_def)
  have a: "x div 65536 = x2" "x div 16777216 = x3" "x div 256 = x1"
    by (simp_all add: x1_def x2_def x3_def div_mult2_eq [symmetric])
  have "x div 16777216 < 256" using assms by (intro less_mult_imp_div_less) simp
  then have b: "x3 mod 256 = x3" using a(2) by simp
  have "x3 * 16777216 + b1 * 65536 + b2 * 256 + b3 = x" using c d e by linarith
  then show ?thesis unfolding a b b1_def [symmetric] b2_def [symmetric] b3_def [symmetric] .
qed
lemma is_digit_of_digit_char: "d < 10 \<Longrightarrow> is_digit_of 10 (digit_char d)"
  by (simp add: is_digit_of_def digit_char_props)

lemma not_digit_dot: "\<not> is_digit_of b CHR ''.''"
  by (simp add: is_digit_of_def digit_val_def)

lemma strtoul0_decimal:
  assumes ne: "cs \<noteq> []" and dg: "\<And>c. c \<in> set cs \<Longrightarrow> is_digit_of 10 c"
    and nz: "hd cs \<noteq> CHR ''0''" and st: "rest = [] \<or> \<not> is_digit_of 10 (hd rest)"
  shows "strtoul0 (cs @ rest) = (digits_value 10 cs, rest)"
proof -
  obtain c cs' where cs: "cs = c # cs'" using ne by (cases cs) auto
  have c0: "c \<noteq> CHR ''0''" using nz cs by simp
  have hex: "(case cs @ rest of c0 # c1 # c2 # x \<Rightarrow>
                c0 = CHR ''0'' \<and> (c1 = CHR ''x'' \<or> c1 = CHR ''X'') \<and> is_digit_of 16 c2
              | _ \<Rightarrow> False) = False"
    using c0 cs by (auto split: list.splits)
  have t1: "take 1 (cs @ rest) \<noteq> ''0''" using c0 cs by simp
  have tr: "takeWhile (is_digit_of 10) rest = []" using st by (cases rest) auto
  have tw: "takeWhile (is_digit_of 10) (cs @ rest) = cs"
    using takeWhile_append2 [of cs "is_digit_of 10" rest] dg tr by simp
  have dr: "dropWhile (is_digit_of 10) rest = rest" using st by (cases rest) auto
  have dw: "dropWhile (is_digit_of 10) (cs @ rest) = rest"
    using dropWhile_append2 [of cs "is_digit_of 10" rest] dg dr by simp
  show ?thesis unfolding strtoul0_def hex Let_def using t1 tw dw by simp
qed

lemma strtoul0_zero:
  assumes "rest = [] \<or> (\<exists>r. rest = CHR ''.'' # r)"
  shows "strtoul0 (CHR ''0'' # rest) = (0, rest)"
proof -
  have hex: "(case CHR ''0'' # rest of c0 # c1 # c2 # x \<Rightarrow>
                c0 = CHR ''0'' \<and> (c1 = CHR ''x'' \<or> c1 = CHR ''X'') \<and> is_digit_of 16 c2
              | _ \<Rightarrow> False) = False"
    using assms by (auto split: list.splits)
  have d0: "is_digit_of 8 CHR ''0''" "digit_val CHR ''0'' = Some 0"
    by (simp_all add: is_digit_of_def digit_val_def)
  have tw: "takeWhile (is_digit_of 8) rest = []" "dropWhile (is_digit_of 8) rest = rest"
    using assms not_digit_dot by auto
  show ?thesis unfolding strtoul0_def hex Let_def using d0 tw by (simp add: digits_value_def)
qed

lemma dec3: "100 * (n div 100) + n div 10 mod 10 * 10 + n mod 10 = (n::nat)"
proof -
  define q where "q = n div 10"
  define r0 where "r0 = n mod 10"
  define q2 where "q2 = q div 10"
  define r1 where "r1 = q mod 10"
  have a: "n = q * 10 + r0" by (simp add: q_def r0_def)
  have b: "q = q2 * 10 + r1" by (simp add: q2_def r1_def)
  have c: "n div 100 = q2" by (simp add: q2_def q_def div_mult2_eq [symmetric])
  have "100 * q2 + r1 * 10 + r0 = n" using a b by linarith
  then show ?thesis unfolding c q_def [symmetric] r1_def [symmetric] r0_def [symmetric] .
qed

lemma digits_value_utoa_byte: "n < 256 \<Longrightarrow> digits_value 10 (utoa_byte n) = n"
proof -
  assume "n < 256"
  have a: "n div 10 < 10" if "n < 100" using that by simp
  have b: "n div 100 < 10" "n div 10 mod 10 < 10" "n mod 10 < 10" using \<open>n < 256\<close> by simp_all
  show ?thesis
    using a b by (simp add: digits_value_def utoa_byte_def digit_char_props dec3)
qed

lemma strtoul0_utoa_byte:
  assumes n: "n < 256" and rest: "rest = [] \<or> (\<exists>r. rest = CHR ''.'' # r)"
  shows "strtoul0 (utoa_byte n @ rest) = (n, rest)"
proof (cases "n = 0")
  case True
  with strtoul0_zero [OF rest] show ?thesis by (simp add: utoa_byte_def digit_char_def)
next
  case False
  have st: "rest = [] \<or> \<not> is_digit_of 10 (hd rest)" using rest not_digit_dot by auto
  have ne: "utoa_byte n \<noteq> []" by (simp add: utoa_byte_def)
  have a: "n div 10 < 10" if "n < 100" using that by simp
  have b: "n div 100 < 10" "n div 10 mod 10 < 10" "n mod 10 < 10" using n by simp_all
  have dg: "is_digit_of 10 c" if "c \<in> set (utoa_byte n)" for c
    using that a b by (auto simp: utoa_byte_def is_digit_of_digit_char split: if_splits)
  have nz: "hd (utoa_byte n) \<noteq> CHR ''0''"
    using False a b n by (auto simp: utoa_byte_def digit_char_props)
  from strtoul0_decimal [OF ne dg nz st] digits_value_utoa_byte [OF n] show ?thesis by simp
qed
lemma utoa_byte_Cons:
  assumes "n < 256"
  obtains c cs where "utoa_byte n = c # cs" "isdigit c"
proof -
  have a: "n div 10 < 10" if "n < 100" using that by simp
  have b: "n div 100 < 10" "n mod 10 < 10" using assms by simp_all
  show ?thesis
    using a b that by (cases "n < 10"; cases "n < 100") (simp_all add: utoa_byte_def digit_char_props)
qed

lemma inet_aton_loop_step:
  assumes n: "n < 256" and p: "length parts \<le> 2"
  shows "inet_aton_loop (utoa_byte n @ CHR ''.'' # rest) parts = inet_aton_loop rest (parts @ [n])"
proof -
  from utoa_byte_Cons [OF n] obtain c cs where c: "utoa_byte n = c # cs" "isdigit c" .
  have s: "strtoul0 (c # cs @ CHR ''.'' # rest) = (n, CHR ''.'' # rest)"
    using strtoul0_utoa_byte [OF n, of "CHR ''.'' # rest"] c(1) by simp
  show ?thesis unfolding c(1) using c(2) s n p by simp
qed

lemma inet_aton_loop_last:
  assumes n: "n < 256" and p: "length parts \<le> 3"
  shows "inet_aton_loop (utoa_byte n) parts = Some (inet_aton_word parts n)"
proof -
  from utoa_byte_Cons [OF n] obtain c cs where c: "utoa_byte n = c # cs" "isdigit c" .
  have s: "strtoul0 (c # cs) = (n, [])"
    using strtoul0_utoa_byte [OF n, of "[]"] c(1) by simp
  have m: "\<not> n > inet_aton_max (length parts)" using n by (simp add: inet_aton_max_def)
  show ?thesis unfolding c(1) using c(2) s m by simp
qed

lemma addr_byte_less: "addr_byte a k < 256"
  by (simp add: addr_byte_def)

lemma inet_aton_inet_ntop: "inet_aton (inet_ntop a) = Some a"
proof -
  let ?b = "addr_byte a"
  have "inet_aton (inet_ntop a) = Some (inet_aton_word [?b 0, ?b 1, ?b 2] (?b 3))"
    by (simp add: inet_aton_def inet_ntop_def inet_aton_loop_step inet_aton_loop_last addr_byte_less)
  also have "inet_aton_word [?b 0, ?b 1, ?b 2] (?b 3) =
      word_of_nat (?b 0 * 16777216 + ?b 1 * 65536 + ?b 2 * 256 + ?b 3)"
    by (simp add: inet_aton_word_def upt_numeral_bound)
  also have "?b 0 * 16777216 + ?b 1 * 65536 + ?b 2 * 256 + ?b 3 = unat a"
  proof -
    have lt: "unat a < 4294967296" using unsigned_less [of a, where 'a = nat] by simp
    have e: "addr_byte a 0 = unat a div 16777216 mod 256" "addr_byte a 1 = unat a div 65536 mod 256"
      "addr_byte a 2 = unat a div 256 mod 256" "addr_byte a 3 = unat a mod 256"
      by (simp_all add: addr_byte_def drop_bit_eq_div unat_div)
    show ?thesis unfolding e by (rule bytes_sum [OF lt])
  qed
  finally show ?thesis by simp
qed
lemma utoa_byte_chars:
  assumes "n < 256" "c \<in> set (utoa_byte n)"
  shows "c \<noteq> CHR ''/''"
proof -
  have a: "n div 10 < 10" if "n < 100" using that by simp
  have b: "n div 100 < 10" "n div 10 mod 10 < 10" "n mod 10 < 10" using assms(1) by simp_all
  have "set (utoa_byte n) \<subseteq> digit_char ` {0..<10}"
    using a b by (auto simp: utoa_byte_def)
  with assms(2) obtain d where "d < 10" "c = digit_char d" by auto
  then show ?thesis by (simp add: digit_char_props)
qed

lemma length_utoa_byte: "length (utoa_byte n) \<le> 3"
  by (simp add: utoa_byte_def)

lemma inet_ntop_no_slash: "CHR ''/'' \<notin> set (inet_ntop a)"
  using utoa_byte_chars [OF addr_byte_less] by (auto simp: inet_ntop_def)

lemma length_inet_ntop: "length (inet_ntop a) \<le> 15"
  using length_utoa_byte [of "addr_byte a 0"] length_utoa_byte [of "addr_byte a 1"]
    length_utoa_byte [of "addr_byte a 2"] length_utoa_byte [of "addr_byte a 3"]
  by (simp add: inet_ntop_def)

lemma atoi_32: "atoi ''32'' = 32"
  by (simp add: atoi_def isspace_def isdigit_def digits_value_def digit_val_def)

lemma pystr_to_prefix_with_prefix:
  "pystr_to_prefix (inet_ntop_with_prefix a) = Some \<lparr>add_sin = a, bitlen = 32\<rparr>"
proof -
  let ?q = "inet_ntop a"
  have l: "length ?q \<le> 15" by (rule length_inet_ntop)
  have "takeWhile (\<lambda>c. c \<noteq> CHR ''/'') (?q @ ''/32'') =
        ?q @ takeWhile (\<lambda>c. c \<noteq> CHR ''/'') ''/32''"
    by (rule takeWhile_append2) (use inet_ntop_no_slash [of a] in auto)
  then have tw: "takeWhile (\<lambda>c. c \<noteq> CHR ''/'') (?q @ ''/32'') = ?q" by simp
  have s: "strchr_slash (?q @ ''/32'') = Some (length ?q)"
    by (simp add: strchr_slash_def tw)
  show ?thesis unfolding inet_ntop_with_prefix_def
    using l by (simp add: pystr_to_prefix_def parse_cidr_def s inet_aton_inet_ntop atoi_32 make_prefix_def)
qed

lemma length_with_prefix: "length (inet_ntop_with_prefix a) < ADDRSTRLEN"
  using length_inet_ntop [of a] by (simp add: ADDRSTRLEN_def inet_ntop_with_prefix_def)

lemma keystr_cstr_with_prefix:
  "keystr_cstr (inet_ntop_with_prefix a) = Some (inet_ntop_with_prefix a)"
  using length_inet_ntop [of a] by (simp add: keystr_cstr_def ADDRSTRLEN_def inet_ntop_with_prefix_def)

lemma convert_key_PyLong:
  "convert_key_to_cstring (PyLong n) =
     Some (inet_ntop (htonl (fst (PyLong_AsLong n))) @ ''/32'', snd (PyLong_AsLong n))"
  by (simp add: inet_ntop_with_prefix_def)

lemma key_to_prefix_PyLong:
  "key_to_prefix (PyLong n) = Some \<lparr>add_sin = htonl (fst (PyLong_AsLong n)), bitlen = 32\<rparr>"
  by (simp add: key_to_prefix_def keystr_cstr_with_prefix pystr_to_prefix_with_prefix)

lemma key_to_prefix_no_slash:
  assumes "CHR ''/'' \<notin> set s" "length (c_str s) < ADDRSTRLEN"
  shows "key_to_prefix (PyUnicode s) =
         map_option (\<lambda>a. \<lparr>add_sin = a, bitlen = 32\<rparr>) (inet_aton (c_str s))"
proof -
  have "CHR ''/'' \<notin> set (c_str s)"
    using assms(1) set_takeWhileD [of "CHR ''/''" "\<lambda>c. c \<noteq> CHR 0x00" s]
    by (auto simp: c_str_def)
  then have "strchr_slash (c_str s) = None" by (simp add: strchr_slash_def)
  then show ?thesis using assms(2)
    by (simp add: key_to_prefix_def keystr_cstr_def pystr_to_prefix_def parse_cidr_def make_prefix_def
        split: option.splits)
qed

lemma key_pending_simps [simp]:
  "key_pending (PyUnicode s) = None"
  "key_pending (PyLong n) = snd (PyLong_AsLong n)"
  "key_pending (PyBool b) = None"
  "key_pending PyNone = None"
  "key_pending (PyObject i) = None"
  by (simp_all add: key_pending_def PyLong_AsLong_def)

lemma fits_long_pending: "fits_long key \<Longrightarrow> key_pending key = None"
  by (cases key) (simp_all add: PyLong_AsLong_def)

lemma key_pending_cases: "key_pending key = None \<or> key_pending key = Some OverflowError"
  by (cases key) (simp_all add: PyLong_AsLong_def)

lemma fits_keystr_cstr:
  "fits_keystr key \<Longrightarrow> convert_key_to_cstring key = Some (keystr, pending) \<Longrightarrow>
   keystr_cstr keystr = Some keystr"
  by (cases key) (auto simp: keystr_cstr_def length_with_prefix)

lemma not_fits_keystr:
  "\<not> fits_keystr key \<Longrightarrow> convert_key_to_cstring key = Some (keystr, pending) \<Longrightarrow>
   keystr_cstr keystr = None"
  by (cases key) (auto simp: keystr_cstr_def)


lemma key_to_prefix_None_iff:
  assumes "length (c_str s) < ADDRSTRLEN"
  shows "(key_to_prefix (PyUnicode s) = None) = (inet_aton (takeWhile (\<lambda>c. c \<noteq> CHR ''/'') (c_str s)) = None)"
proof (cases "CHR ''/'' \<in> set (c_str s)")
  case True
  have "length (takeWhile (\<lambda>c. c \<noteq> CHR ''/'') (c_str s)) \<le> length (c_str s)"
    by (rule length_takeWhile_le)
  with assms have l: "length (takeWhile (\<lambda>c. c \<noteq> CHR ''/'') (c_str s)) < 32"
    by (simp add: ADDRSTRLEN_def)
  have "take (length (takeWhile (\<lambda>c. c \<noteq> CHR ''/'') (c_str s))) (c_str s) =
        takeWhile (\<lambda>c. c \<noteq> CHR ''/'') (c_str s)"
    by (metis takeWhile_eq_take)
  with True l assms show ?thesis
    by (simp add: key_to_prefix_def keystr_cstr_def pystr_to_prefix_def parse_cidr_def
        strchr_slash_def Let_def split: option.splits)
next
  case False
  then have tw: "takeWhile (\<lambda>c. c \<noteq> CHR ''/'') (c_str s) = c_str s"
    by (auto simp: takeWhile_eq_all_conv)
  from False assms have "(key_to_prefix (PyUnicode s) = None) = (inet_aton (c_str s) = None)"
    by (simp add: key_to_prefix_def keystr_cstr_def pystr_to_prefix_def parse_cidr_def
        strchr_slash_def split: option.splits)
  then show ?thesis by (simp only: tw)
qed

section \<open>The operations of the mapping interface, by the parsed key\<close>

lemma scenario_keys:
  "key_to_prefix (PyUnicode ''10.0.0.0/8'') = Some \<lparr>add_sin = 0x0A000000, bitlen = 8\<rparr>"
  "key_to_prefix (PyUnicode ''10.1.0.0/16'') = Some \<lparr>add_sin = 0x0A010000, bitlen = 16\<rparr>"
  "key_to_prefix (PyUnicode ''10.1.1.0/24'') = Some \<lparr>add_sin = 0x0A010100, bitlen = 24\<rparr>"
  "key_to_prefix (PyUnicode ''10.1.1.5/32'') = Some \<lparr>add_sin = 0x0A010105, bitlen = 32\<rparr>"
  "key_to_prefix (PyUnicode ''10.1.2.5/32'') = Some \<lparr>add_sin = 0x0A010205, bitlen = 32\<rparr>"
  "key_to_prefix (PyUnicode ''10.2.0.0/32'') = Some \<lparr>add_sin = 0x0A020000, bitlen = 32\<rparr>"
  "key_to_prefix (PyUnicode ''11.0.0.0/32'') = Some \<lparr>add_sin = 0x0B000000, bitlen = 32\<rparr>"
  by (simp_all add: codec_ev)

lemma scenario_fits:
  "fits_keystr (PyUnicode ''10.0.0.0/8'')"
  "fits_keystr (PyUnicode ''10.1.0.0/16'')"
  "fits_keystr (PyUnicode ''10.1.1.0/24'')"
  "fits_keystr (PyUnicode ''10.1.1.5/32'')"
  "fits_keystr (PyUnicode ''10.1.2.5/32'')"
  "fits_keystr (PyUnicode ''10.2.0.0/32'')"
  "fits_keystr (PyUnicode ''11.0.0.0/32'')"
  by (simp_all add: c_str_def ADDRSTRLEN_def)

text \<open>
  For a key that fits \<^verbatim>\<open>keystr\<close>, every operation is a function of the parsed key and
  of the error indicator that the conversion left.
\<close>

lemma facade_key_conj:
  assumes "fits_keystr key"
  shows
  "(pytricia_subscript t key =
      (case key_to_prefix key of None \<Rightarrow> Inl ValueError
       | Some p \<Rightarrow> (case patricia_search_best t p of None \<Rightarrow> Inl KeyError
                    | Some h \<Rightarrow> py_return (key_pending key) (node_data (node_at (head t) h))))) \<and>
   (pytricia_internal_delete t key =
      (case key_to_prefix key of None \<Rightarrow> (Inl ValueError, t)
       | Some p \<Rightarrow> (case patricia_search_exact t p of None \<Rightarrow> (Inl KeyError, t)
                    | Some h \<Rightarrow> (py_return (key_pending key) (), patricia_remove t h)))) \<and>
   (pytricia_assign_subscript t key (Some v) =
      (case key_to_prefix key of None \<Rightarrow> (Inl ValueError, t)
       | Some p \<Rightarrow> (case patricia_lookup t p of
                      (t', h) \<Rightarrow> (py_return (key_pending key) (),
                                  t'\<lparr>head := set_data h (Some v) (head t')\<rparr>)))) \<and>
   (pytricia_contains t key =
      (case key_to_prefix key of None \<Rightarrow> Inl ValueError
       | Some p \<Rightarrow> (case patricia_search_best t p of None \<Rightarrow> py_return (key_pending key) False
                    | Some h \<Rightarrow> py_return (key_pending key) True))) \<and>
   (pytricia_has_key t [key] =
      (case key_to_prefix key of None \<Rightarrow> Inl ValueError
       | Some p \<Rightarrow> (case patricia_search_exact t p of
                      None \<Rightarrow> py_return (key_pending key) (PyBool False)
                    | Some h \<Rightarrow> py_return (key_pending key) (PyBool True)))) \<and>
   (get_body t key dflt =
      (case key_to_prefix key of None \<Rightarrow> Inl ValueError
       | Some p \<Rightarrow> (case patricia_search_best t p of
                      None \<Rightarrow> (case dflt of Some d \<Rightarrow> py_return (key_pending key) (Some d)
                               | None \<Rightarrow> py_return (key_pending key) (Some PyNone))
                    | Some h \<Rightarrow> py_return (key_pending key) (node_data (node_at (head t) h)))))"
proof -
  consider "convert_key_to_cstring key = None"
    | keystr pending where "convert_key_to_cstring key = Some (keystr, pending)"
    by (cases "convert_key_to_cstring key") auto
  then show ?thesis
  proof cases
    case 1
    then show ?thesis
      by (simp add: pytricia_subscript_def pytricia_internal_delete_def pytricia_assign_subscript_def
          pytricia_contains_def get_body_def key_to_prefix_def)
  next
    case 2
    from fits_keystr_cstr [OF assms 2] have c: "keystr_cstr keystr = Some keystr" .
    from 2 c show ?thesis
      by (simp add: pytricia_subscript_def pytricia_internal_delete_def pytricia_assign_subscript_def
          pytricia_contains_def get_body_def key_to_prefix_def key_pending_def make_and_lookup_def
          split: option.splits prod.splits)
  qed
qed

lemma facade_key:
  assumes "fits_keystr key"
  shows
  "pytricia_subscript t key =
     (case key_to_prefix key of None \<Rightarrow> Inl ValueError
      | Some p \<Rightarrow> (case patricia_search_best t p of None \<Rightarrow> Inl KeyError
                   | Some h \<Rightarrow> py_return (key_pending key) (node_data (node_at (head t) h))))"
  "pytricia_internal_delete t key =
     (case key_to_prefix key of None \<Rightarrow> (Inl ValueError, t)
      | Some p \<Rightarrow> (case patricia_search_exact t p of None \<Rightarrow> (Inl KeyError, t)
                   | Some h \<Rightarrow> (py_return (key_pending key) (), patricia_remove t h)))"
  "pytricia_assign_subscript t key (Some v) =
     (case key_to_prefix key of None \<Rightarrow> (Inl ValueError, t)
      | Some p \<Rightarrow> (case patricia_lookup t p of
                     (t', h) \<Rightarrow> (py_return (key_pending key) (),
                                 t'\<lparr>head := set_data h (Some v) (head t')\<rparr>)))"
  "pytricia_contains t key =
     (case key_to_prefix key of None \<Rightarrow> Inl ValueError
      | Some p \<Rightarrow> (case patricia_search_best t p of None \<Rightarrow> py_return (key_pending key) False
                   | Some h \<Rightarrow> py_return (key_pending key) True))"
  "pytricia_has_key t [key] =
     (case key_to_prefix key of None \<Rightarrow> Inl ValueError
      | Some p \<Rightarrow> (case patricia_search_exact t p of
                     None \<Rightarrow> py_return (key_pending key) (PyBool False)
                   | Some h \<Rightarrow> py_return (key_pending key) (PyBool True)))"
  "get_body t key dflt =
     (case key_to_prefix key of None \<Rightarrow> Inl ValueError
      | Some p \<Rightarrow> (case patricia_search_best t p of
                     None \<Rightarrow> (case dflt of Some d \<Rightarrow> py_return (key_pending key) (Some d)
                              | None \<Rightarrow> py_return (key_pending key) (Some PyNone))
                   | Some h \<Rightarrow> py_return (key_pending key) (node_data (node_at (head t) h))))"
  using facade_key_conj [OF assms, of t v dflt] by simp_all

text \<open>
  A text key of 32 bytes or more makes every operation read past \<^verbatim>\<open>keystr\<close>.
\<close>

lemma facade_overread:
  assumes "\<not> fits_keystr key"
  shows "pytricia_subscript t key = Inl ReadPastKeystr"
    "fst (pytricia_internal_delete t key) = Inl ReadPastKeystr"
    "fst (pytricia_assign_subscript t key (Some v)) = Inl ReadPastKeystr"
    "pytricia_contains t key = Inl ReadPastKeystr"
    "pytricia_has_key t [key] = Inl ReadPastKeystr"
    "get_body t key dflt = Inl ReadPastKeystr"
proof -
  from assms obtain s where k: "key = PyUnicode s" by (cases key) simp_all
  with assms have "keystr_cstr (take ADDRSTRLEN (c_str s)) = None"
    by (simp add: keystr_cstr_def)
  with k show "pytricia_subscript t key = Inl ReadPastKeystr"
    "fst (pytricia_internal_delete t key) = Inl ReadPastKeystr"
    "fst (pytricia_assign_subscript t key (Some v)) = Inl ReadPastKeystr"
    "pytricia_contains t key = Inl ReadPastKeystr"
    "pytricia_has_key t [key] = Inl ReadPastKeystr"
    "get_body t key dflt = Inl ReadPastKeystr"
    by (simp_all add: pytricia_subscript_def pytricia_internal_delete_def
        pytricia_assign_subscript_def pytricia_contains_def get_body_def)
qed

declare pytricia_has_key.simps(1) [simp del]

lemma scenario_tree_eq:
  "scenario_tree =
     \<lparr>head = Node 0x0A000000 8 True (Some (PyUnicode ''A''))
               (Node 0x0A010000 16 True (Some (PyUnicode ''B''))
                  (Node 0x0A010100 24 True (Some (PyUnicode ''C'')) Null Null) Null) Null,
      maxbits = 32, num_active_node = 3\<rparr>"
  by (simp add: scenario_tree_def pytricia_init_def facade_key fits_ev scenario_keys engine_ev)

lemma patricia_lookup_inv:
  assumes inv: "trie_inv m [] (head t)" and blm: "bitlen p \<le> m"
    and lk: "patricia_lookup t p = (t', h)"
  shows "trie_inv m [] (head t') \<and> maxbits t' = maxbits t \<and>
         set (real_keys (head t')) = insert (key_of p) (set (real_keys (head t))) \<and>
         (num_active_node t = length (real_keys (head t)) \<longrightarrow>
          num_active_node t' = length (real_keys (head t')))"
proof -
  let ?a = "add_sin p" and ?bl = "bitlen p"
  obtain ra rbl where re: "reached (head t) ?a ?bl = (ra, rbl)" by (cases "reached (head t) ?a ?bl")
  let ?d = "differ_bit ?a ra (min rbl ?bl)"
  let ?s = "splice_node (head t) ?a ?bl ?d ra"
  from lk have "t' = fst (patricia_lookup t p)" by simp
  then have t': "t' = t\<lparr>head := fst ?s,
      num_active_node := (if snd (snd ?s) then num_active_node t + 1 else num_active_node t)\<rparr>"
    by (simp add: patricia_lookup_def Let_def case_prod_beta re)
  have main: "trie_inv m [] (fst ?s) \<and>
      set (real_keys (fst ?s)) = insert (kbits ?a ?bl) (set (real_keys (head t))) \<and>
      length (real_keys (fst ?s)) = length (real_keys (head t)) + (if snd (snd ?s) then 1 else 0)"
  proof (cases "head t = Null")
    case True
    with blm show ?thesis by (simp add: leaf_def)
  next
    case False
    from splice_correct [OF inv False blm re refl] splice_length [OF inv False re refl]
    show ?thesis by simp
  qed
  then show ?thesis unfolding t' by (simp add: key_of_def)
qed

lemma assign_inv:
  assumes inv: "trie_inv m [] (head t)" and f: "fits_keystr key"
    and k: "key_to_prefix key = Some p" and blm: "bitlen p \<le> m"
  shows "trie_inv m [] (head (snd (pytricia_assign_subscript t key (Some x)))) \<and>
         maxbits (snd (pytricia_assign_subscript t key (Some x))) = maxbits t \<and>
         set (real_keys (head (snd (pytricia_assign_subscript t key (Some x))))) =
           insert (key_of p) (set (real_keys (head t))) \<and>
         (num_active_node t = length (real_keys (head t)) \<longrightarrow>
          num_active_node (snd (pytricia_assign_subscript t key (Some x))) =
            length (real_keys (head (snd (pytricia_assign_subscript t key (Some x))))))"
proof -
  obtain t' h where lk: "patricia_lookup t p = (t', h)" by (cases "patricia_lookup t p")
  from patricia_lookup_inv [OF inv blm lk]
  have a: "trie_inv m [] (head t')" and b: "maxbits t' = maxbits t"
    and c: "set (real_keys (head t')) = insert (key_of p) (set (real_keys (head t)))"
    and d: "num_active_node t = length (real_keys (head t)) \<longrightarrow>
          num_active_node t' = length (real_keys (head t'))" by simp_all
  have e: "snd (pytricia_assign_subscript t key (Some x)) = t'\<lparr>head := set_data h (Some x) (head t')\<rparr>"
    using k lk f by (simp add: facade_key)
  from a b c d show ?thesis unfolding e by simp
qed

lemma search_exact_iff_inv:
  assumes "trie_inv m [] (head t)"
  shows "patricia_search_exact t p \<noteq> None \<longleftrightarrow> key_of p \<in> set (real_keys (head t))"
proof
  assume "patricia_search_exact t p \<noteq> None"
  then obtain h where "search_exact (head t) (add_sin p) (bitlen p) = Some h"
    by (auto simp: patricia_search_exact_def)
  from search_exact_sound [OF this] obtain nb v l r where
    "node_at (head t) h = Node nb (bitlen p) True v l r" "kbits nb (bitlen p) = kbits (add_sin p) (bitlen p)"
    by blast
  with node_at_real_keys [of "head t" h nb "bitlen p" v l r]
  show "key_of p \<in> set (real_keys (head t))" by (simp add: key_of_def)
next
  assume "key_of p \<in> set (real_keys (head t))"
  then obtain q where q: "q \<in> set (real_prefixes (head t))" "key_of q = kbits (add_sin p) (bitlen p)"
    by (auto simp: real_keys_def key_of_def)
  from search_exact_complete [OF assms q] show "patricia_search_exact t p \<noteq> None"
    by (auto simp: patricia_search_exact_def)
qed

lemma search_exact_iff:
  assumes "wf_tree t"
  shows "patricia_search_exact t p \<noteq> None \<longleftrightarrow> key_of p \<in> set (real_keys (head t))"
  using assms unfolding wf_tree_def by (rule search_exact_iff_inv)

lemma patricia_remove_inv:
  assumes inv: "trie_inv m [] (head t)" and se: "patricia_search_exact t p = Some h"
  shows "trie_inv m [] (head (patricia_remove t h)) \<and> maxbits (patricia_remove t h) = maxbits t \<and>
         set (real_keys (head (patricia_remove t h))) = set (real_keys (head t)) - {key_of p} \<and>
         (num_active_node t = length (real_keys (head t)) \<longrightarrow>
          num_active_node (patricia_remove t h) = length (real_keys (head (patricia_remove t h))))"
proof -
  from se have "search_exact (head t) (add_sin p) (bitlen p) = Some h"
    by (simp add: patricia_search_exact_def)
  from search_exact_sound [OF this] obtain nb v l r where
    n: "node_at (head t) h = Node nb (bitlen p) True v l r" and k: "kbits nb (bitlen p) = key_of p"
    by (auto simp: key_of_def)
  have a: "trie_inv m [] (remove_at h (head t))" using inv by (rule remove_at_inv)
  have b: "set (real_keys (remove_at h (head t))) = set (real_keys (head t)) - {key_of p}"
    using remove_at_keys [OF inv n] k by simp
  have c: "Suc (length (real_keys (remove_at h (head t)))) = length (real_keys (head t))"
    using n by (rule remove_at_length)
  have "num_active_node t = length (real_keys (head t)) \<longrightarrow>
        num_active_node t - 1 = length (real_keys (remove_at h (head t)))" using c by arith
  with a b show ?thesis by (simp add: patricia_remove_def)
qed

lemma delete_inv:
  assumes inv: "trie_inv m [] (head t)" and f: "fits_keystr key" and k: "key_to_prefix key = Some p"
  shows "trie_inv m [] (head (snd (pytricia_internal_delete t key))) \<and>
         maxbits (snd (pytricia_internal_delete t key)) = maxbits t \<and>
         set (real_keys (head (snd (pytricia_internal_delete t key)))) =
           set (real_keys (head t)) - {key_of p} \<and>
         (num_active_node t = length (real_keys (head t)) \<longrightarrow>
          num_active_node (snd (pytricia_internal_delete t key)) =
            length (real_keys (head (snd (pytricia_internal_delete t key)))))"
proof (cases "patricia_search_exact t p")
  case None
  with search_exact_iff_inv [OF inv, of p] have "key_of p \<notin> set (real_keys (head t))" by simp
  moreover have "pytricia_internal_delete t key = (Inl KeyError, t)"
    using None k f by (simp add: facade_key)
  ultimately show ?thesis using inv by simp
next
  case (Some h)
  have e: "snd (pytricia_internal_delete t key) = patricia_remove t h"
    using Some k f by (simp add: facade_key)
  from patricia_remove_inv [OF inv Some] show ?thesis unfolding e by simp
qed

text \<open>
  A run of operations keeps the invariant, stores exactly the pairs inserted and not
  deleted since, and keeps the engine's counter equal to the number of real nodes. No
  parsed key is longer than \<open>m\<close> when \<open>m\<close> is 65535, since \<^verbatim>\<open>masklen\<close> is an
  \<^verbatim>\<open>unsigned short\<close>.
\<close>

lemma run_ops_inv:
  "trie_inv m [] (head t) \<Longrightarrow> list_all fits_keystr (map op_key ops) \<Longrightarrow>
   (\<And>key p. key \<in> op_key ` set ops \<Longrightarrow> key_to_prefix key = Some p \<Longrightarrow> bitlen p \<le> m) \<Longrightarrow>
   num_active_node t = length (real_keys (head t)) \<Longrightarrow>
   trie_inv m [] (head (run_ops t ops)) \<and> maxbits (run_ops t ops) = maxbits t \<and>
   set (real_keys (head (run_ops t ops))) = pairs_after (set (real_keys (head t))) ops \<and>
   num_active_node (run_ops t ops) = length (real_keys (head (run_ops t ops)))"
proof (induction t ops rule: run_ops.induct)
  case (1 t)
  then show ?case by simp
next
  case (2 t key val ops)
  let ?t' = "snd (pytricia_assign_subscript t key (Some val))"
  from "2.prems"(2) have f: "fits_keystr key" and fs: "list_all fits_keystr (map op_key ops)"
    by simp_all
  have bd: "bitlen p \<le> m" if "key \<in> op_key ` set ops" "key_to_prefix key = Some p" for key p
    using "2.prems"(3) [of key p] that by simp
  show ?case
  proof (cases "key_to_prefix key")
    case None
    then have "?t' = t" using f by (simp add: facade_key)
    with "2.IH" [OF _ fs bd] "2.prems"(1,4) None show ?thesis by simp
  next
    case (Some p)
    have "bitlen p \<le> m" using "2.prems"(3) [of key p] Some by simp
    from assign_inv [OF "2.prems"(1) f Some this, of val] "2.prems"(4)
    have a: "trie_inv m [] (head ?t')" "maxbits ?t' = maxbits t"
      "set (real_keys (head ?t')) = insert (key_of p) (set (real_keys (head t)))"
      "num_active_node ?t' = length (real_keys (head ?t'))" by simp_all
    from "2.IH" [OF a(1) fs bd a(4)] a(2,3) Some show ?thesis by simp
  qed
next
  case (3 t key ops)
  let ?t' = "snd (pytricia_internal_delete t key)"
  from "3.prems"(2) have f: "fits_keystr key" and fs: "list_all fits_keystr (map op_key ops)"
    by simp_all
  have bd: "bitlen p \<le> m" if "key \<in> op_key ` set ops" "key_to_prefix key = Some p" for key p
    using "3.prems"(3) [of key p] that by simp
  show ?case
  proof (cases "key_to_prefix key")
    case None
    then have "?t' = t" using f by (simp add: facade_key)
    with "3.IH" [OF _ fs bd] "3.prems"(1,4) None show ?thesis by simp
  next
    case (Some p)
    from delete_inv [OF "3.prems"(1) f Some] "3.prems"(4)
    have a: "trie_inv m [] (head ?t')" "maxbits ?t' = maxbits t"
      "set (real_keys (head ?t')) = set (real_keys (head t)) - {key_of p}"
      "num_active_node ?t' = length (real_keys (head ?t'))" by simp_all
    from "3.IH" [OF a(1) fs bd a(4)] a(2,3) Some show ?thesis by simp
  qed
qed


text \<open>
  When no assigned key is longer than the tree allows, the tree stays well formed.
\<close>

lemma run_ops_wf:
  assumes "wf_tree t" "list_all fits_keystr (map op_key ops)"
    "\<And>key p. key \<in> op_key ` set ops \<Longrightarrow> key_to_prefix key = Some p \<Longrightarrow>
       bitlen p \<le> min 32 (maxbits t)"
    "num_active_node t = length (real_keys (head t))"
  shows "wf_tree (run_ops t ops)"
proof -
  from assms(1) have "trie_inv (min 32 (maxbits t)) [] (head t)" by (simp add: wf_tree_def)
  from run_ops_inv [OF this assms(2,3,4)] show ?thesis by (simp add: wf_tree_def)
qed

lemma wf_New_Patricia: "wf_tree (New_Patricia m)"
  by (simp add: wf_tree_def New_Patricia_def)

lemma wf_distinct: "wf_tree t \<Longrightarrow> distinct (real_keys (head t))"
  unfolding wf_tree_def by (rule distinct_real_keys)

section \<open>The iterator\<close>

lemma take_append_replicate_Suc:
  "take k (xs @ replicate (Suc k) c) = take k (xs @ replicate k c)"
  by (simp add: min_def del: replicate_Suc)

lemma iter_take_remaining:
  fixes g :: "patricia_node \<Rightarrow> pyerr + pyobj"
  defines "g \<equiv> \<lambda>x. case node_prefix x of None \<Rightarrow> Inl StopIteration
                                      | Some p \<Rightarrow> Inr (PyUnicode (prefix_toa2x p))"
  shows "(m_Xrn iter = Null \<longrightarrow> m_Xstack iter = []) \<Longrightarrow> Null \<notin> set (m_Xstack iter) \<Longrightarrow>
    iter_take k iter =
      take k (map g (real_nodes (m_Xrn iter) @ concat (map real_nodes (m_Xstack iter)))
              @ replicate k (Inl StopIteration))"
proof (induction k arbitrary: iter)
  case 0
  then show ?case by simp
next
  case (Suc k)
  let ?R = "real_nodes (m_Xrn iter) @ concat (map real_nodes (m_Xstack iter))"
  obtain x n' st' where nl: "next_loop (m_Xrn iter) (m_Xstack iter) = (x, n', st')"
    by (cases "next_loop (m_Xrn iter) (m_Xstack iter)")
  let ?it' = "iter\<lparr>m_Xnode := x, m_Xstack := st', m_Xrn := n'\<rparr>"
  have nx: "pytriciaiter_next iter = (g x, ?it')"
    by (simp add: pytriciaiter_next_def nl g_def)
  from next_loop_eq [OF Suc.prems] nl have
    a: "n' = Null \<longrightarrow> st' = []" and b: "Null \<notin> set st'" and
    c: "case ?R of [] \<Rightarrow> x = Null \<and> n' = Null
        | y # ys \<Rightarrow> x = y \<and> real_nodes n' @ concat (map real_nodes st') = ys"
    by simp_all
  have IH: "iter_take k ?it' =
      take k (map g (real_nodes n' @ concat (map real_nodes st')) @ replicate k (Inl StopIteration))"
    using Suc.IH [of ?it'] a b by simp
  show ?case
  proof (cases ?R)
    case Nil
    with c a have e: "x = Null" "n' = Null" "st' = []" by simp_all
    have "iter_take k ?it' = replicate k (Inl StopIteration)" using IH e by simp
    then show ?thesis unfolding iter_take.simps nx Nil fst_conv snd_conv using e
      by (simp add: g_def)
  next
    case (Cons y ys)
    with c have e: "x = y" "real_nodes n' @ concat (map real_nodes st') = ys" by simp_all
    have nx': "pytriciaiter_next iter = (g y, iter\<lparr>m_Xnode := y, m_Xstack := st', m_Xrn := n'\<rparr>)"
      using nx e(1) by (simp only:)
    have i: "iter_take k (iter\<lparr>m_Xnode := y, m_Xstack := st', m_Xrn := n'\<rparr>) =
        take k (map g ys @ replicate k (Inl StopIteration))"
      using IH by (simp only: e)
    have "take (Suc k) (map g (y # ys) @ replicate (Suc k) (Inl StopIteration)) =
          g y # take k (map g ys @ replicate (Suc k) (Inl StopIteration))"
      by (simp del: replicate_Suc)
    also have "\<dots> = g y # take k (map g ys @ replicate k (Inl StopIteration))"
      by (simp only: take_append_replicate_Suc)
    finally show ?thesis unfolding iter_take.simps nx' Cons fst_conv snd_conv
      by (simp only: i)
  qed
qed





lemma node_at_Null [simp]: "node_at Null h = Null"
  by (cases h) simp_all

lemma node_data_set_data:
  "node_at n h \<noteq> Null \<Longrightarrow> node_data (node_at (set_data h x n) h) = x"
  by (induction h x n rule: set_data.induct) auto

lemma pytricia_length_set_data:
  "pytricia_length (t\<lparr>head := set_data h x (head t)\<rparr>) = pytricia_length t"
  by (simp add: pytricia_length_eq)


lemma same_prefix_same_result:
  assumes "fits_keystr k1" "fits_keystr k2" "key_pending k1 = key_pending k2"
    "key_to_prefix k1 = key_to_prefix k2"
  shows "pytricia_subscript t k1 = pytricia_subscript t k2"
    "pytricia_internal_delete t k1 = pytricia_internal_delete t k2"
    "pytricia_assign_subscript t k1 val = pytricia_assign_subscript t k2 val"
    "pytricia_get t [k1] = pytricia_get t [k2]"
    "pytricia_get t [k1, d] = pytricia_get t [k2, d]"
    "pytricia_contains t k1 = pytricia_contains t k2"
    "pytricia_has_key t [k1] = pytricia_has_key t [k2]"
proof -
  define pe where "pe = key_pending k2"
  define kp where "kp = key_to_prefix k2"
  have e: "key_pending k1 = pe" "key_pending k2 = pe" "key_to_prefix k1 = kp" "key_to_prefix k2 = kp"
    using assms(3,4) by (simp_all add: pe_def kp_def)
  note f = facade_key [OF assms(1)] facade_key [OF assms(2)]
  show "pytricia_subscript t k1 = pytricia_subscript t k2"
    "pytricia_internal_delete t k1 = pytricia_internal_delete t k2"
    "pytricia_get t [k1] = pytricia_get t [k2]"
    "pytricia_get t [k1, d] = pytricia_get t [k2, d]"
    "pytricia_contains t k1 = pytricia_contains t k2"
    "pytricia_has_key t [k1] = pytricia_has_key t [k2]"
    unfolding pytricia_get.simps f e by simp_all
  have "pytricia_assign_subscript t k1 (Some v) = pytricia_assign_subscript t k2 (Some v)" for v
    unfolding f e by simp
  moreover have "pytricia_assign_subscript t k None = pytricia_internal_delete t k" for k
    by (simp add: pytricia_assign_subscript_def)
  moreover have "pytricia_internal_delete t k1 = pytricia_internal_delete t k2"
    unfolding f e by simp
  ultimately show "pytricia_assign_subscript t k1 val = pytricia_assign_subscript t k2 val"
    by (cases val) simp_all
qed

lemma stack_ok_mono: "stack_ok m b st \<Longrightarrow> b \<le> b' \<Longrightarrow> stack_ok m b' st"
  by (cases st) auto

lemma stack_ok_length: "stack_ok m b st \<Longrightarrow> length st \<le> b"
proof (induction st arbitrary: b)
  case Nil
  then show ?case by simp
next
  case (Cons x st)
  obtain ctx n where x: "x = (ctx, n)" by (cases x)
  with Cons.prems have a: "stack_ok m (length ctx - 1) st" "0 < length ctx" "length ctx \<le> b"
    by simp_all
  from Cons.IH [OF a(1)] have "length st \<le> length ctx - 1" .
  moreover have "length (x # st) = Suc (length st)" by simp
  ultimately show ?case using a(2,3) by linarith
qed

lemma walk_stack_max_bound:
  "trie_inv m ctx n \<Longrightarrow> stack_ok m (length ctx) cst \<Longrightarrow> (n = Null \<longrightarrow> cst = []) \<Longrightarrow>
   st = map snd cst \<Longrightarrow> walk_stack_max n st \<le> m"
proof (induction n st arbitrary: ctx cst rule: walk_stack_max.induct)
  case (1 st)
  then show ?case by simp
next
  case (2 nb nbl rl v l r st)
  let ?N = "Node nb nbl rl v l r"
  let ?K = "kbits nb nbl"
  from "2.prems"(1) have il: "trie_inv m (?K @ [False]) l" and ir: "trie_inv m (?K @ [True]) r"
    and nm: "nbl \<le> m" and pk: "prefix ctx ?K" by simp_all
  have lc: "length ctx \<le> nbl" using pk prefix_length_le by fastforce
  have ls: "length st \<le> m"
    using stack_ok_length [OF "2.prems"(2)] "2.prems"(4) lc nm by simp
  have so: "stack_ok m nbl cst" using "2.prems"(2) lc by (rule stack_ok_mono)
  have "\<exists>ctx' cst'. trie_inv m ctx' (fst (walk_advance ?N st)) \<and> stack_ok m (length ctx') cst' \<and>
      (fst (walk_advance ?N st) = Null \<longrightarrow> cst' = []) \<and> snd (walk_advance ?N st) = map snd cst'"
  proof (cases "l \<noteq> Null")
    case True
    show ?thesis
    proof (cases "r \<noteq> Null")
      case r: True
      have "stack_ok m (length (?K @ [False])) ((?K @ [True], r) # cst)"
        using ir r so by simp
      with True r il "2.prems"(4) show ?thesis
        by (intro exI [of _ "?K @ [False]"] exI [of _ "(?K @ [True], r) # cst"]) simp
    next
      case r: False
      have "stack_ok m (length (?K @ [False])) cst" using so by (rule stack_ok_mono) simp
      with True r il "2.prems"(4) show ?thesis
        by (intro exI [of _ "?K @ [False]"] exI [of _ cst]) simp
    qed
  next
    case False
    show ?thesis
    proof (cases "r \<noteq> Null")
      case r: True
      have "stack_ok m (length (?K @ [True])) cst" using so by (rule stack_ok_mono) simp
      with False r ir "2.prems"(4) show ?thesis
        by (intro exI [of _ "?K @ [True]"] exI [of _ cst]) simp
    next
      case r: False
      show ?thesis
      proof (cases cst)
        case Nil
        with False r "2.prems"(4) show ?thesis
          by (intro exI [of _ "[]"] exI [of _ "[]"]) simp
      next
        case (Cons x cst')
        obtain cx nx where x: "x = (cx, nx)" by (cases x)
        from "2.prems"(2) Cons x have a: "trie_inv m cx nx" "nx \<noteq> Null"
          "stack_ok m (length cx - 1) cst'" by simp_all
        have "stack_ok m (length cx) cst'" using a(3) by (rule stack_ok_mono) simp
        with False r a "2.prems"(4) Cons x show ?thesis
          by (intro exI [of _ cx] exI [of _ cst']) simp
      qed
    qed
  qed
  then obtain ctx' cst' where
    n: "trie_inv m ctx' (fst (walk_advance ?N st))" "stack_ok m (length ctx') cst'"
       "fst (walk_advance ?N st) = Null \<longrightarrow> cst' = []" "snd (walk_advance ?N st) = map snd cst'"
    by blast
  from "2.IH" [OF n] ls show ?case by (simp del: walk_advance.simps)
qed

lemma walk_stack_within_array:
  assumes "wf_tree t"
  shows "walk_stack_max (head t) [] \<le> 32"
proof -
  from assms have "trie_inv (min 32 (maxbits t)) [] (head t)" by (simp add: wf_tree_def)
  from walk_stack_max_bound [OF this, of "[]" "[]"] show ?thesis by simp
qed

section \<open>Keys outside the range of the conversion\<close>

text \<open>
  An integer key outside \<^verbatim>\<open>long\<close> is converted as \<open>-1\<close>, that is as
  \<^verbatim>\<open>255.255.255.255/32\<close>, with \<^verbatim>\<open>OverflowError\<close> left set: a lookup that finds nothing
  replaces it by \<^verbatim>\<open>KeyError\<close>, and every other operation returns its result with the
  error still set.
\<close>

lemma py_return_simps [simp]:
  "py_return pe v \<noteq> Inl ValueError" "py_return pe v \<noteq> Inl KeyError"
  "py_return pe v \<noteq> Inl ReadPastKeystr"
  "(py_return pe v = Inr w) = (pe = None \<and> v = w)"
  by (cases pe; simp)+

lemma overflow_key:
  assumes "\<not> fits_long key"
  shows "fits_keystr key" "key_pending key = Some OverflowError"
    "key_to_prefix key = Some \<lparr>add_sin = 0xFFFFFFFF, bitlen = 32\<rparr>"
proof -
  from assms obtain n where k: "key = PyLong n" and n: "\<not> (- (2 ^ 63) \<le> n \<and> n < 2 ^ 63)"
    by (cases key) simp_all
  from n have a: "PyLong_AsLong n = (- 1, Some OverflowError)" by (simp add: PyLong_AsLong_def)
  have h: "htonl (- 1) = 0xFFFFFFFF" by (simp add: htonl_def)
  from k show "fits_keystr key" by simp
  from k a show "key_pending key = Some OverflowError" by simp
  from k a h show "key_to_prefix key = Some \<lparr>add_sin = 0xFFFFFFFF, bitlen = 32\<rparr>"
    by (simp add: key_to_prefix_PyLong)
qed

lemma overflow_key_results:
  assumes "\<not> fits_long key"
  shows "pytricia_get t [key] = Inl (ResultWithErrorSet OverflowError)"
    "pytricia_get t [key, d] = Inl (ResultWithErrorSet OverflowError)"
    "pytricia_has_key t [key] = Inl (ResultWithErrorSet OverflowError)"
    "pytricia_contains t key = Inl (ResultWithErrorSet OverflowError)"
    "fst (pytricia_assign_subscript t key (Some v)) = Inl (ResultWithErrorSet OverflowError)"
    "fst (pytricia_insert t [key, v]) = Inl (ResultWithErrorSet OverflowError)"
    "pytricia_subscript t key = Inl KeyError \<or>
     pytricia_subscript t key = Inl (ResultWithErrorSet OverflowError)"
  using overflow_key [OF assms]
  by (simp_all add: facade_key case_prod_beta split: option.splits)

section \<open>The claims\<close>

text \<open>
  C1. In a fresh tree with \<^verbatim>\<open>10.0.0.0/8\<close> \<open>\<mapsto>\<close> A, \<^verbatim>\<open>10.1.0.0/16\<close> \<open>\<mapsto>\<close> B and
  \<^verbatim>\<open>10.1.1.0/24\<close> \<open>\<mapsto>\<close> C, the subscript returns C for \<^verbatim>\<open>10.1.1.5/32\<close>, B for
  \<^verbatim>\<open>10.1.2.5/32\<close>, A for \<^verbatim>\<open>10.2.0.0/32\<close> and raises \<open>KeyError\<close> for \<^verbatim>\<open>11.0.0.0/32\<close>;
  after the deletion of \<^verbatim>\<open>10.1.0.0/16\<close>, which succeeds, it returns A for
  \<^verbatim>\<open>10.1.2.5/32\<close>.
\<close>

theorem scenario_lookups:
  "pytricia_subscript scenario_tree (PyUnicode ''10.1.1.5/32'') = Inr (Some (PyUnicode ''C'')) \<and>
   pytricia_subscript scenario_tree (PyUnicode ''10.1.2.5/32'') = Inr (Some (PyUnicode ''B'')) \<and>
   pytricia_subscript scenario_tree (PyUnicode ''10.2.0.0/32'') = Inr (Some (PyUnicode ''A'')) \<and>
   pytricia_subscript scenario_tree (PyUnicode ''11.0.0.0/32'') = Inl KeyError \<and>
   fst (pytricia_internal_delete scenario_tree (PyUnicode ''10.1.0.0/16'')) = Inr () \<and>
   pytricia_subscript (snd (pytricia_internal_delete scenario_tree (PyUnicode ''10.1.0.0/16'')))
     (PyUnicode ''10.1.2.5/32'') = Inr (Some (PyUnicode ''A''))"
proof -
  have d: "pytricia_internal_delete scenario_tree (PyUnicode ''10.1.0.0/16'') =
     (Inr (), \<lparr>head = Node 0x0A000000 8 True (Some (PyUnicode ''A''))
               (Node 0x0A010100 24 True (Some (PyUnicode ''C'')) Null Null) Null,
      maxbits = 32, num_active_node = 2\<rparr>)"
    by (simp add: scenario_tree_eq facade_key fits_ev scenario_keys engine_ev)
  have "pytricia_subscript scenario_tree (PyUnicode ''10.1.1.5/32'') = Inr (Some (PyUnicode ''C''))"
    by (simp add: scenario_tree_eq facade_key fits_ev scenario_keys engine_ev)
  moreover have "pytricia_subscript scenario_tree (PyUnicode ''10.1.2.5/32'') = Inr (Some (PyUnicode ''B''))"
    by (simp add: scenario_tree_eq facade_key fits_ev scenario_keys engine_ev)
  moreover have "pytricia_subscript scenario_tree (PyUnicode ''10.2.0.0/32'') = Inr (Some (PyUnicode ''A''))"
    by (simp add: scenario_tree_eq facade_key fits_ev scenario_keys engine_ev)
  moreover have "pytricia_subscript scenario_tree (PyUnicode ''11.0.0.0/32'') = Inl KeyError"
    by (simp add: scenario_tree_eq facade_key fits_ev scenario_keys engine_ev)
  moreover have "pytricia_subscript (snd (pytricia_internal_delete scenario_tree (PyUnicode ''10.1.0.0/16'')))
     (PyUnicode ''10.1.2.5/32'') = Inr (Some (PyUnicode ''A''))"
    unfolding d by (simp add: facade_key fits_ev scenario_keys engine_ev)
  ultimately show ?thesis using d by simp
qed

text \<open>
  C8. The constructor takes an optional maximum bit length, 32 by default; an integer
  outside 0..128 is rejected with \<open>ValueError\<close>, and every integer inside the range is
  accepted and becomes the tree's \<open>maxbits\<close>.
\<close>

theorem pytricia_init_range:
  "pytricia_init [] = (Inr (), New_Patricia 32) \<and>
   pytricia_init [PyLong n] =
     (if 0 \<le> n \<and> n \<le> 128 then (Inr (), New_Patricia (nat n)) else (Inl ValueError, New_Patricia 1))"
  by (auto simp: pytricia_init_def PATRICIA_MAXBITS_def)

text \<open>
  C3. A fresh iterator over any tree yields the text of the prefix of each real node
  exactly once, parent before children and left before right, and of no glue node;
  once the real nodes are exhausted every further call raises \<open>StopIteration\<close>.
  The first \<open>k\<close> results are the first \<open>k\<close> elements of the real nodes' texts followed
  by \<open>StopIteration\<close> for ever.
\<close>

theorem iterator_yields_real_nodes_once:
  "iter_take k (pytricia_iter t) =
     take k (map (\<lambda>p. Inr (PyUnicode (prefix_toa2x p))) (real_prefixes (head t))
             @ replicate k (Inl StopIteration))"
proof -
  have "map (\<lambda>x. case node_prefix x of None \<Rightarrow> Inl StopIteration
                  | Some p \<Rightarrow> Inr (PyUnicode (prefix_toa2x p))) (real_nodes n) =
        map (\<lambda>p. Inr (PyUnicode (prefix_toa2x p))) (real_prefixes n)" for n
    by (induction n) auto
  with iter_take_remaining [of "pytricia_iter t" k] show ?thesis
    by (simp add: pytricia_iter_def)
qed

text \<open>
  C4. When the (bits, bitlen) pair of the key is already stored in a well-formed tree,
  assigning (or inserting) it again returns the tree with only the value at the
  existing node replaced, the real nodes and the length unchanged. The key is one
  that the conversion takes without harm: a text shorter than \<^verbatim>\<open>keystr\<close> or an integer
  within \<^verbatim>\<open>long\<close>.
\<close>

theorem reinsert_overwrites_in_place:
  assumes "wf_tree t" "fits_keystr key" "fits_long key"
    "key_to_prefix key = Some p" "key_of p \<in> set (real_keys (head t))"
  shows "\<exists>h. patricia_search_exact t p = Some h \<and>
           pytricia_assign_subscript t key (Some v) =
             (Inr (), t\<lparr>head := set_data h (Some v) (head t)\<rparr>) \<and>
           pytricia_insert t [key, v] =
             (Inr PyNone, t\<lparr>head := set_data h (Some v) (head t)\<rparr>) \<and>
           node_data (node_at (set_data h (Some v) (head t)) h) = Some v \<and>
           real_prefixes (set_data h (Some v) (head t)) = real_prefixes (head t) \<and>
           pytricia_length (snd (pytricia_assign_subscript t key (Some v))) = pytricia_length t"
proof -
  from search_exact_iff [OF assms(1), of p] assms(5) obtain h where
    h: "patricia_search_exact t p = Some h" by auto
  from fits_long_pending [OF assms(3)] have pe: "key_pending key = None" .
  from patricia_lookup_found [OF h] assms(2,4) pe
  have a: "pytricia_assign_subscript t key (Some v) =
             (Inr (), t\<lparr>head := set_data h (Some v) (head t)\<rparr>)"
    by (simp add: facade_key)
  from h have "search_exact (head t) (add_sin p) (bitlen p) = Some h"
    by (simp add: patricia_search_exact_def)
  from search_exact_sound [OF this] have "node_at (head t) h \<noteq> Null" by auto
  then have d: "node_data (node_at (set_data h (Some v) (head t)) h) = Some v"
    by (rule node_data_set_data)
  from h a d show ?thesis by (simp add: pytricia_length_set_data)
qed

theorem reinsert_overwrites_in_place_witness:
  "wf_tree scenario_tree \<and>
   fits_keystr (PyUnicode ''10.1.0.0/16'') \<and> fits_long (PyUnicode ''10.1.0.0/16'') \<and>
   key_to_prefix (PyUnicode ''10.1.0.0/16'') = Some \<lparr>add_sin = 0x0A010000, bitlen = 16\<rparr> \<and>
   key_of \<lparr>add_sin = 0x0A010000, bitlen = 16\<rparr> \<in> set (real_keys (head scenario_tree)) \<and>
   pytricia_assign_subscript scenario_tree (PyUnicode ''10.1.0.0/16'') (Some (PyUnicode ''Z'')) =
     (Inr (), scenario_tree\<lparr>head := set_data [False] (Some (PyUnicode ''Z'')) (head scenario_tree)\<rparr>) \<and>
   pytricia_length (snd (pytricia_assign_subscript scenario_tree (PyUnicode ''10.1.0.0/16'')
     (Some (PyUnicode ''Z'')))) = 3"
proof -
  have w: "wf_tree scenario_tree"
    by (simp add: scenario_tree_eq wf_tree_def engine_ev)
  have f: "fits_keystr (PyUnicode ''10.1.0.0/16'')" "fits_long (PyUnicode ''10.1.0.0/16'')"
    by (simp_all add: fits_ev)
  have k: "key_to_prefix (PyUnicode ''10.1.0.0/16'') = Some \<lparr>add_sin = 0x0A010000, bitlen = 16\<rparr>"
    by (rule scenario_keys)
  have m: "key_of \<lparr>add_sin = 0x0A010000, bitlen = 16\<rparr> \<in> set (real_keys (head scenario_tree))"
    by (simp add: scenario_tree_eq)
  have s: "patricia_search_exact scenario_tree \<lparr>add_sin = 0x0A010000, bitlen = 16\<rparr> = Some [False]"
    by (simp add: scenario_tree_eq engine_ev)
  have l: "pytricia_length scenario_tree = 3"
    by (simp add: pytricia_length_eq scenario_tree_eq)
  from reinsert_overwrites_in_place [OF w f k m, of "PyUnicode ''Z''"] s l w f k m
  show ?thesis by auto
qed

text \<open>
  C5. Deleting a key is decided by the exact-match search. When the key's (bits,
  bitlen) pair is not stored as a real node, the exact search finds nothing and the
  deletion (by \<^verbatim>\<open>delete\<close>, by \<^verbatim>\<open>del t[key]\<close>) raises \<open>KeyError\<close> and leaves the
  tree as it was, also when a less specific stored prefix covers the key. The key is
  any key that fits \<^verbatim>\<open>keystr\<close> (a text of 32 bytes or more is read past the array).
\<close>

theorem delete_missing_key_error:
  assumes "fits_keystr key" "key_to_prefix key = Some p" "key_of p \<notin> set (real_keys (head t))"
  shows "pytricia_internal_delete t key =
           (case patricia_search_exact t p of
              None \<Rightarrow> (Inl KeyError, t)
            | Some node \<Rightarrow> (py_return (key_pending key) (), patricia_remove t node)) \<and>
         patricia_search_exact t p = None \<and>
         pytricia_internal_delete t key = (Inl KeyError, t) \<and>
         pytricia_delitem t [key] = (Inl KeyError, t) \<and>
         pytricia_assign_subscript t key None = (Inl KeyError, t)"
proof -
  have n: "patricia_search_exact t p = None"
  proof (rule ccontr)
    assume "patricia_search_exact t p \<noteq> None"
    then obtain h where "search_exact (head t) (add_sin p) (bitlen p) = Some h"
      by (auto simp: patricia_search_exact_def)
    from search_exact_sound [OF this] obtain nb v l r where
      "node_at (head t) h = Node nb (bitlen p) True v l r"
      "kbits nb (bitlen p) = kbits (add_sin p) (bitlen p)" by blast
    with node_at_real_keys [of "head t" h nb "bitlen p" v l r] assms(3)
    show False by (simp add: key_of_def)
  qed
  with assms(1,2) show ?thesis
    by (simp add: facade_key pytricia_assign_subscript_def)
qed

theorem delete_missing_key_error_witness:
  "fits_keystr (PyUnicode ''10.1.1.5/32'') \<and>
   key_to_prefix (PyUnicode ''10.1.1.5/32'') = Some \<lparr>add_sin = 0x0A010105, bitlen = 32\<rparr> \<and>
   key_of \<lparr>add_sin = 0x0A010105, bitlen = 32\<rparr> \<notin> set (real_keys (head scenario_tree)) \<and>
   pytricia_subscript scenario_tree (PyUnicode ''10.1.1.5/32'') = Inr (Some (PyUnicode ''C'')) \<and>
   pytricia_internal_delete scenario_tree (PyUnicode ''10.1.1.5/32'') = (Inl KeyError, scenario_tree)"
proof -
  have f: "fits_keystr (PyUnicode ''10.1.1.5/32'')" by (simp add: fits_ev)
  have k: "key_to_prefix (PyUnicode ''10.1.1.5/32'') = Some \<lparr>add_sin = 0x0A010105, bitlen = 32\<rparr>"
    by (rule scenario_keys)
  have m: "key_of \<lparr>add_sin = 0x0A010105, bitlen = 32\<rparr> \<notin> set (real_keys (head scenario_tree))"
    by (simp add: scenario_tree_eq kbits_neq)
  have s: "pytricia_subscript scenario_tree (PyUnicode ''10.1.1.5/32'') = Inr (Some (PyUnicode ''C''))"
    by (simp add: scenario_tree_eq facade_key fits_ev scenario_keys engine_ev)
  from delete_missing_key_error [OF f k m] f k m s show ?thesis by simp
qed



text \<open>
  C7. For a key that fits \<^verbatim>\<open>keystr\<close>, every operation that takes a key raises
  \<open>ValueError\<close> exactly when the codec rejects the key: a key that does not parse is
  never answered with \<open>KeyError\<close>, \<open>None\<close>, \<open>False\<close> or a value, and a key that parses
  never raises \<open>ValueError\<close>. The codec rejects every object that is neither a text nor
  an integer, and a text exactly when the part before its first slash is not an address
  for \<^verbatim>\<open>inet_aton\<close>. In the scenario tree the malformed \<^verbatim>\<open>10.1.1.256\<close> raises
  \<open>ValueError\<close> in every operation, and the well-formed, absent \<^verbatim>\<open>11.0.0.0\<close> raises
  \<open>KeyError\<close> from the subscript and the deletion, gives \<open>None\<close> from \<^verbatim>\<open>get\<close> and false
  from \<^verbatim>\<open>has_key\<close> and \<^verbatim>\<open>in\<close>.
\<close>

theorem malformed_key_is_value_error:
  assumes "fits_keystr key"
  shows
  "(pytricia_subscript t key = Inl ValueError) = (key_to_prefix key = None) \<and>
   (fst (pytricia_internal_delete t key) = Inl ValueError) = (key_to_prefix key = None) \<and>
   (fst (pytricia_delitem t [key]) = Inl ValueError) = (key_to_prefix key = None) \<and>
   (fst (pytricia_assign_subscript t key (Some v)) = Inl ValueError) = (key_to_prefix key = None) \<and>
   (fst (pytricia_insert t [key, v]) = Inl ValueError) = (key_to_prefix key = None) \<and>
   (pytricia_get t [key] = Inl ValueError) = (key_to_prefix key = None) \<and>
   (pytricia_get t [key, d] = Inl ValueError) = (key_to_prefix key = None) \<and>
   (pytricia_contains t key = Inl ValueError) = (key_to_prefix key = None) \<and>
   (pytricia_has_key t [key] = Inl ValueError) = (key_to_prefix key = None) \<and>
   key_to_prefix PyNone = None \<and> key_to_prefix (PyObject i) = None \<and>
   (length (c_str s) < ADDRSTRLEN \<longrightarrow>
      (key_to_prefix (PyUnicode s) = None) =
      (inet_aton (takeWhile (\<lambda>c. c \<noteq> CHR ''/'') (c_str s)) = None)) \<and>
   pytricia_subscript scenario_tree (PyUnicode ''10.1.1.256'') = Inl ValueError \<and>
   fst (pytricia_internal_delete scenario_tree (PyUnicode ''10.1.1.256'')) = Inl ValueError \<and>
   fst (pytricia_assign_subscript scenario_tree (PyUnicode ''10.1.1.256'') (Some PyNone)) =
     Inl ValueError \<and>
   pytricia_get scenario_tree [PyUnicode ''10.1.1.256''] = Inl ValueError \<and>
   pytricia_contains scenario_tree (PyUnicode ''10.1.1.256'') = Inl ValueError \<and>
   pytricia_has_key scenario_tree [PyUnicode ''10.1.1.256''] = Inl ValueError \<and>
   pytricia_subscript scenario_tree (PyUnicode ''11.0.0.0'') = Inl KeyError \<and>
   fst (pytricia_internal_delete scenario_tree (PyUnicode ''11.0.0.0'')) = Inl KeyError \<and>
   pytricia_get scenario_tree [PyUnicode ''11.0.0.0''] = Inr (Some PyNone) \<and>
   pytricia_contains scenario_tree (PyUnicode ''11.0.0.0'') = Inr False \<and>
   pytricia_has_key scenario_tree [PyUnicode ''11.0.0.0''] = Inr (PyBool False)"
proof -
  note f = facade_key [OF assms]
  have 1: "(pytricia_subscript t key = Inl ValueError) = (key_to_prefix key = None)"
    by (simp add: f split: option.splits)
  have 2: "(fst (pytricia_internal_delete t key) = Inl ValueError) = (key_to_prefix key = None)"
    by (simp add: f split: option.splits)
  have 3: "(fst (pytricia_delitem t [key]) = Inl ValueError) = (key_to_prefix key = None)"
    by (cases "key_pending key") (simp_all add: f split: option.splits)
  have 4: "(fst (pytricia_assign_subscript t key (Some v)) = Inl ValueError) = (key_to_prefix key = None)"
    by (simp add: f case_prod_beta split: option.splits)
  have 5: "(fst (pytricia_insert t [key, v]) = Inl ValueError) = (key_to_prefix key = None)"
    by (cases "key_pending key") (simp_all add: f case_prod_beta split: option.splits)
  have 6: "(pytricia_get t [key] = Inl ValueError) = (key_to_prefix key = None)"
    by (simp add: f split: option.splits)
  have 7: "(pytricia_get t [key, d] = Inl ValueError) = (key_to_prefix key = None)"
    by (simp add: f split: option.splits)
  have 8: "(pytricia_contains t key = Inl ValueError) = (key_to_prefix key = None)"
    by (simp add: f split: option.splits)
  have 9: "(pytricia_has_key t [key] = Inl ValueError) = (key_to_prefix key = None)"
    by (simp add: f split: option.splits)
  have 10: "key_to_prefix PyNone = None" "key_to_prefix (PyObject i) = None"
    by (simp_all add: key_to_prefix_def)
  have 11: "length (c_str s) < ADDRSTRLEN \<longrightarrow>
      (key_to_prefix (PyUnicode s) = None) =
      (inet_aton (takeWhile (\<lambda>c. c \<noteq> CHR ''/'') (c_str s)) = None)"
    using key_to_prefix_None_iff [of s] by blast
  have m: "key_to_prefix (PyUnicode ''10.1.1.256'') = None"
    and a: "key_to_prefix (PyUnicode ''11.0.0.0'') = Some \<lparr>add_sin = 0x0B000000, bitlen = 32\<rparr>"
    by (simp_all add: codec_ev)
  have 12: "pytricia_subscript scenario_tree (PyUnicode ''10.1.1.256'') = Inl ValueError"
    "fst (pytricia_internal_delete scenario_tree (PyUnicode ''10.1.1.256'')) = Inl ValueError"
    "fst (pytricia_assign_subscript scenario_tree (PyUnicode ''10.1.1.256'') (Some PyNone)) =
       Inl ValueError"
    "pytricia_get scenario_tree [PyUnicode ''10.1.1.256''] = Inl ValueError"
    "pytricia_contains scenario_tree (PyUnicode ''10.1.1.256'') = Inl ValueError"
    "pytricia_has_key scenario_tree [PyUnicode ''10.1.1.256''] = Inl ValueError"
    by (simp_all add: facade_key fits_ev m)
  have 13: "pytricia_subscript scenario_tree (PyUnicode ''11.0.0.0'') = Inl KeyError"
    "fst (pytricia_internal_delete scenario_tree (PyUnicode ''11.0.0.0'')) = Inl KeyError"
    "pytricia_get scenario_tree [PyUnicode ''11.0.0.0''] = Inr (Some PyNone)"
    "pytricia_contains scenario_tree (PyUnicode ''11.0.0.0'') = Inr False"
    "pytricia_has_key scenario_tree [PyUnicode ''11.0.0.0''] = Inr (PyBool False)"
    by (simp_all add: scenario_tree_eq facade_key fits_ev a engine_ev)
  from 1 2 3 4 5 6 7 8 9 10 11 12 13 show ?thesis by (intro conjI)
qed

theorem malformed_key_is_value_error_witness:
  "fits_keystr (PyUnicode ''10.0.0.0/8/8'') \<and>
   key_to_prefix (PyUnicode ''10.0.0.0/8/8'') = Some \<lparr>add_sin = 0x0A000000, bitlen = 8\<rparr> \<and>
   pytricia_subscript scenario_tree (PyUnicode ''10.0.0.0/8/8'') \<noteq> Inl ValueError \<and>
   fits_keystr (PyUnicode ''10.0.0.0.0/8'') \<and>
   key_to_prefix (PyUnicode ''10.0.0.0.0/8'') = None \<and>
   pytricia_subscript scenario_tree (PyUnicode ''10.0.0.0.0/8'') = Inl ValueError"
proof -
  have f: "fits_keystr (PyUnicode ''10.0.0.0/8/8'')" "fits_keystr (PyUnicode ''10.0.0.0.0/8'')"
    by (simp_all add: fits_ev)
  have k: "key_to_prefix (PyUnicode ''10.0.0.0/8/8'') = Some \<lparr>add_sin = 0x0A000000, bitlen = 8\<rparr>"
    "key_to_prefix (PyUnicode ''10.0.0.0.0/8'') = None"
    by (simp_all add: codec_ev)
  from malformed_key_is_value_error [OF f(1), of scenario_tree] k(1)
  have a: "pytricia_subscript scenario_tree (PyUnicode ''10.0.0.0/8/8'') \<noteq> Inl ValueError"
    by simp
  from malformed_key_is_value_error [OF f(2), of scenario_tree] k(2)
  have b: "pytricia_subscript scenario_tree (PyUnicode ''10.0.0.0.0/8'') = Inl ValueError"
    by simp
  from f k a b show ?thesis by (intro conjI)
qed



text \<open>
  C9. A string key without a slash, shorter than \<^verbatim>\<open>keystr\<close>, is given the prefix
  length 32 (and is rejected when its address does not parse); every integer key is
  rendered as a dotted quad followed by \<^verbatim>\<open>/32\<close> and parses to that address with length
  32: the address is the low 32 bits of the integer when the integer is within \<^verbatim>\<open>long\<close>.
  So \<^verbatim>\<open>10.0.0.1\<close>, \<^verbatim>\<open>10.0.0.1/32\<close> and the integer 167772161 denote the same prefix,
  and keys that the conversion takes without harm and that denote the same prefix behave
  alike in every operation.
\<close>

theorem key_without_length_is_host_prefix:
  "(CHR ''/'' \<notin> set s \<and> length (c_str s) < ADDRSTRLEN \<longrightarrow>
      key_to_prefix (PyUnicode s) =
        map_option (\<lambda>a. \<lparr>add_sin = a, bitlen = 32\<rparr>) (inet_aton (c_str s))) \<and>
   convert_key_to_cstring (PyLong n) =
     Some (inet_ntop (htonl (fst (PyLong_AsLong n))) @ ''/32'', snd (PyLong_AsLong n)) \<and>
   key_to_prefix (PyLong n) = Some \<lparr>add_sin = htonl (fst (PyLong_AsLong n)), bitlen = 32\<rparr> \<and>
   (fits_long (PyLong n) \<longrightarrow>
      key_to_prefix (PyLong n) = Some \<lparr>add_sin = word_of_int n, bitlen = 32\<rparr> \<and>
      key_pending (PyLong n) = None) \<and>
   key_to_prefix (PyUnicode ''10.0.0.1'') = Some \<lparr>add_sin = 0x0A000001, bitlen = 32\<rparr> \<and>
   key_to_prefix (PyUnicode ''10.0.0.1/32'') = Some \<lparr>add_sin = 0x0A000001, bitlen = 32\<rparr> \<and>
   key_to_prefix (PyLong 167772161) = Some \<lparr>add_sin = 0x0A000001, bitlen = 32\<rparr> \<and>
   (fits_keystr k1 \<and> fits_long k1 \<and> fits_keystr k2 \<and> fits_long k2 \<and>
    key_to_prefix k1 = key_to_prefix k2 \<longrightarrow>
      pytricia_subscript t k1 = pytricia_subscript t k2 \<and>
      pytricia_internal_delete t k1 = pytricia_internal_delete t k2 \<and>
      pytricia_assign_subscript t k1 val = pytricia_assign_subscript t k2 val \<and>
      pytricia_get t [k1] = pytricia_get t [k2] \<and>
      pytricia_get t [k1, d] = pytricia_get t [k2, d] \<and>
      pytricia_contains t k1 = pytricia_contains t k2 \<and>
      pytricia_has_key t [k1] = pytricia_has_key t [k2])"
proof -
  have a: "key_to_prefix (PyUnicode ''10.0.0.1'') = Some \<lparr>add_sin = 0x0A000001, bitlen = 32\<rparr>"
    "key_to_prefix (PyUnicode ''10.0.0.1/32'') = Some \<lparr>add_sin = 0x0A000001, bitlen = 32\<rparr>"
    by (simp_all add: codec_ev)
  have b: "key_to_prefix (PyLong 167772161) = Some \<lparr>add_sin = 0x0A000001, bitlen = 32\<rparr>"
    by (simp add: key_to_prefix_PyLong htonl_def PyLong_AsLong_def)
  have c: "fits_keystr k1 \<and> fits_long k1 \<and> fits_keystr k2 \<and> fits_long k2 \<and>
    key_to_prefix k1 = key_to_prefix k2 \<longrightarrow>
      pytricia_subscript t k1 = pytricia_subscript t k2 \<and>
      pytricia_internal_delete t k1 = pytricia_internal_delete t k2 \<and>
      pytricia_assign_subscript t k1 val = pytricia_assign_subscript t k2 val \<and>
      pytricia_get t [k1] = pytricia_get t [k2] \<and>
      pytricia_get t [k1, d] = pytricia_get t [k2, d] \<and>
      pytricia_contains t k1 = pytricia_contains t k2 \<and>
      pytricia_has_key t [k1] = pytricia_has_key t [k2]"
  proof (intro impI)
    assume h: "fits_keystr k1 \<and> fits_long k1 \<and> fits_keystr k2 \<and> fits_long k2 \<and>
      key_to_prefix k1 = key_to_prefix k2"
    then have pe: "key_pending k1 = key_pending k2" by (simp add: fits_long_pending)
    from h have f: "fits_keystr k1" "fits_keystr k2" "key_to_prefix k1 = key_to_prefix k2"
      by simp_all
    from same_prefix_same_result [OF f(1,2) pe f(3)] show
      "pytricia_subscript t k1 = pytricia_subscript t k2 \<and>
      pytricia_internal_delete t k1 = pytricia_internal_delete t k2 \<and>
      pytricia_assign_subscript t k1 val = pytricia_assign_subscript t k2 val \<and>
      pytricia_get t [k1] = pytricia_get t [k2] \<and>
      pytricia_get t [k1, d] = pytricia_get t [k2, d] \<and>
      pytricia_contains t k1 = pytricia_contains t k2 \<and>
      pytricia_has_key t [k1] = pytricia_has_key t [k2]" by blast
  qed
  have e: "CHR ''/'' \<notin> set s \<and> length (c_str s) < ADDRSTRLEN \<longrightarrow>
      key_to_prefix (PyUnicode s) =
        map_option (\<lambda>a. \<lparr>add_sin = a, bitlen = 32\<rparr>) (inet_aton (c_str s))"
    using key_to_prefix_no_slash [of s] by blast
  have g: "fits_long (PyLong n) \<longrightarrow>
      key_to_prefix (PyLong n) = Some \<lparr>add_sin = word_of_int n, bitlen = 32\<rparr> \<and>
      key_pending (PyLong n) = None"
    by (simp add: key_to_prefix_PyLong htonl_def PyLong_AsLong_def word_of_int_eq_iff take_bit_eq_mod)
  from a b c e g convert_key_PyLong [of n] key_to_prefix_PyLong [of n]
  show ?thesis by (intro conjI)
qed

theorem key_without_length_is_host_prefix_witness:
  "CHR ''/'' \<notin> set ''10.1.1.5'' \<and> length (c_str ''10.1.1.5'') < ADDRSTRLEN \<and>
   fits_keystr (PyUnicode ''10.1.1.5'') \<and> fits_long (PyUnicode ''10.1.1.5'') \<and>
   fits_keystr (PyLong 167837957) \<and> fits_long (PyLong 167837957) \<and>
   key_to_prefix (PyUnicode ''10.1.1.5'') = Some \<lparr>add_sin = 0x0A010105, bitlen = 32\<rparr> \<and>
   key_to_prefix (PyUnicode ''10.1.1.5'') = key_to_prefix (PyLong 167837957) \<and>
   pytricia_subscript scenario_tree (PyUnicode ''10.1.1.5'') = Inr (Some (PyUnicode ''C'')) \<and>
   pytricia_subscript scenario_tree (PyLong 167837957) = Inr (Some (PyUnicode ''C''))"
proof -
  have ns: "CHR ''/'' \<notin> set ''10.1.1.5''" "length (c_str ''10.1.1.5'') < ADDRSTRLEN"
    by (simp_all add: fits_ev)
  have f: "fits_keystr (PyUnicode ''10.1.1.5'')" "fits_long (PyUnicode ''10.1.1.5'')"
    "fits_keystr (PyLong 167837957)" "fits_long (PyLong 167837957)"
    by (simp_all add: fits_ev)
  have k: "key_to_prefix (PyUnicode ''10.1.1.5'') = Some \<lparr>add_sin = 0x0A010105, bitlen = 32\<rparr>"
    by (simp add: codec_ev)
  have l: "key_to_prefix (PyLong 167837957) = Some \<lparr>add_sin = 0x0A010105, bitlen = 32\<rparr>"
    by (simp add: key_to_prefix_PyLong htonl_def PyLong_AsLong_def)
  have s: "pytricia_subscript scenario_tree (PyUnicode ''10.1.1.5'') = Inr (Some (PyUnicode ''C''))"
    by (simp add: scenario_tree_eq facade_key fits_ev k engine_ev)
  from key_without_length_is_host_prefix [of "''10.1.1.5''" 167837957 "PyUnicode ''10.1.1.5''"
      "PyLong 167837957" scenario_tree]
    f k l
  have "pytricia_subscript scenario_tree (PyUnicode ''10.1.1.5'') =
        pytricia_subscript scenario_tree (PyLong 167837957)" by simp
  with ns f k l s show ?thesis by simp
qed



end
